theory Spec2Isabelle
  imports Main
begin

section \<open>Strings of the extension\<close>

text \<open>
  JavaScript strings are modelled as lists of characters (code units below 256).
  The helpers below follow the String methods the extension calls: \<open>trim\<close>,
  \<open>startsWith\<close>, \<open>endsWith\<close>, \<open>includes\<close> (here \<open>str_includes\<close>), \<open>indexOf\<close>, \<open>substring\<close>,
  \<open>split\<close> on a newline and \<open>join\<close>.
\<close>

definition is_space :: "char \<Rightarrow> bool" where
  \<comment> \<open>the class \<open>\s\<close>, which is also what \<open>trim\<close> strips: tab, line feed, vertical tab,
      form feed, carriage return, space, no-break space\<close>
  "is_space c = (c = CHR 0x09 \<or> c = CHR 0x0A \<or> c = CHR 0x0B \<or> c = CHR 0x0C
                 \<or> c = CHR 0x0D \<or> c = CHR 0x20 \<or> c = CHR 0xA0)"

definition is_alpha :: "char \<Rightarrow> bool" where
  "is_alpha c = (let n = (of_char c :: nat) in (65 \<le> n \<and> n \<le> 90) \<or> (97 \<le> n \<and> n \<le> 122))"

definition is_digit :: "char \<Rightarrow> bool" where
  "is_digit c = (let n = (of_char c :: nat) in 48 \<le> n \<and> n \<le> 57)"

definition is_word :: "char \<Rightarrow> bool" where
  \<comment> \<open>the class \<open>\w\<close>\<close>
  "is_word c = (is_alpha c \<or> is_digit c \<or> c = CHR ''_'')"

definition trim :: "string \<Rightarrow> string" where
  "trim s = rev (dropWhile is_space (rev (dropWhile is_space s)))"

fun startsWith :: "string \<Rightarrow> string \<Rightarrow> bool" where
  "startsWith s [] = True"
| "startsWith [] (p # ps) = False"
| "startsWith (c # cs) (p # ps) = (c = p \<and> startsWith cs ps)"

definition endsWith :: "string \<Rightarrow> string \<Rightarrow> bool" where
  "endsWith s p = startsWith (rev s) (rev p)"

fun str_includes :: "string \<Rightarrow> string \<Rightarrow> bool" where
  "str_includes [] p = (p = [])"
| "str_includes (c # cs) p = (startsWith (c # cs) p \<or> str_includes cs p)"

fun split_on :: "char \<Rightarrow> string \<Rightarrow> string list" where
  \<comment> \<open>\<open>s.split(c)\<close> for a one-character separator\<close>
  "split_on sep [] = [[]]"
| "split_on sep (c # cs) =
     (if c = sep then [] # split_on sep cs
      else (case split_on sep cs of [] \<Rightarrow> [[c]] | w # ws \<Rightarrow> (c # w) # ws))"

fun join_with :: "string \<Rightarrow> string list \<Rightarrow> string" where
  \<comment> \<open>\<open>xs.join(sep)\<close>\<close>
  "join_with sep [] = []"
| "join_with sep [x] = x"
| "join_with sep (x # y # ys) = x @ sep @ join_with sep (y # ys)"

fun indexOf_from :: "string \<Rightarrow> string \<Rightarrow> nat \<Rightarrow> int" where
  "indexOf_from [] p i = (if p = [] then int i else - 1)"
| "indexOf_from (c # cs) p i =
     (if startsWith (c # cs) p then int i else indexOf_from cs p (Suc i))"

definition indexOf :: "string \<Rightarrow> string \<Rightarrow> int" where
  \<comment> \<open>\<open>s.indexOf(p)\<close>: the first index where \<open>p\<close> occurs, or -1\<close>
  "indexOf s p = indexOf_from s p 0"

definition lastIndexOf :: "string \<Rightarrow> string \<Rightarrow> int" where
  \<comment> \<open>\<open>s.lastIndexOf(p)\<close>: the last index where \<open>p\<close> occurs, or -1\<close>
  "lastIndexOf s p =
     (case filter (\<lambda>i. startsWith (drop i s) p) (rev [0 ..< Suc (length s)]) of
        [] \<Rightarrow> - 1
      | i # _ \<Rightarrow> int i)"

definition substring :: "string \<Rightarrow> int \<Rightarrow> int \<Rightarrow> string" where
  \<comment> \<open>\<open>s.substring(a, b)\<close>: both indices are clamped to the string, and swapped when
      the first is the larger\<close>
  "substring s a b =
     (let n = int (length s);
          a' = max 0 (min a n);
          b' = max 0 (min b n);
          lo = min a' b';
          hi = max a' b'
      in take (nat (hi - lo)) (drop (nat lo) s))"

definition substring_from :: "string \<Rightarrow> nat \<Rightarrow> string" where
  \<comment> \<open>\<open>s.substring(a)\<close> for a non-negative index\<close>
  "substring_from s a = drop a s"

section \<open>Regular expressions\<close>

text \<open>
  The patterns of the extension are kept as data and run by a backtracking matcher
  with the priorities of a JavaScript regular expression: a quantifier is greedy,
  an alternative tries its left branch first, and the match that is found first
  is the one returned. \<open>ms r st\<close> lists the states in which \<open>r\<close> can
  finish when started in \<open>st\<close>, in that order of priority.
\<close>

datatype rx =
    Chr char
  | Cls "char \<Rightarrow> bool"
  | Eps
  | Bol
  | Eol
  | Seq rx rx
  | Alt rx rx
  | Star rx
  | Grp nat rx

datatype mstate = MState (pos: nat) (rest: string) (caps: "(nat \<times> string) list")

function ms :: "rx \<Rightarrow> mstate \<Rightarrow> mstate list" where
  "ms (Chr c) st =
     (case rest st of
        [] \<Rightarrow> []
      | x # xs \<Rightarrow> if x = c then [MState (Suc (pos st)) xs (caps st)] else [])"
| "ms (Cls p) st =
     (case rest st of
        [] \<Rightarrow> []
      | x # xs \<Rightarrow> if p x then [MState (Suc (pos st)) xs (caps st)] else [])"
| "ms Eps st = [st]"
| "ms Bol st = (if pos st = 0 then [st] else [])"
| "ms Eol st = (if rest st = [] then [st] else [])"
| "ms (Seq a b) st = concat (map (ms b) (ms a st))"
| "ms (Alt a b) st = ms a st @ ms b st"
| "ms (Star a) st =
     concat (map (\<lambda>st'. if length (rest st') < length (rest st)
                          then ms (Star a) st' else [])
                 (ms a st)) @ [st]"
| "ms (Grp n a) st =
     map (\<lambda>st'. MState (pos st') (rest st')
                   ((n, take (pos st' - pos st) (rest st)) # caps st'))
         (ms a st)"
  by pat_completeness auto
termination
  by (relation "measures [\<lambda>(r, st). size r, \<lambda>(r, st). length (rest st)]") auto

fun exec_from :: "rx \<Rightarrow> nat \<Rightarrow> string \<Rightarrow> (nat \<times> mstate) option" where
  \<comment> \<open>the leftmost match: the start offset and the state at its end\<close>
  "exec_from r i s =
     (case ms r (MState i s []) of
        st # _ \<Rightarrow> Some (i, st)
      | [] \<Rightarrow> (case s of [] \<Rightarrow> None | _ # s' \<Rightarrow> exec_from r (Suc i) s'))"

definition str_match :: "string \<Rightarrow> rx \<Rightarrow> (nat \<times> mstate) option" where
  \<comment> \<open>\<open>s.match(r)\<close> for a pattern without the global flag\<close>
  "str_match s r = exec_from r 0 s"

definition match0 :: "string \<Rightarrow> nat \<times> mstate \<Rightarrow> string" where
  \<comment> \<open>\<open>match[0]\<close>: the text matched, in the string \<open>s\<close> that was searched\<close>
  "match0 s m = take (pos (snd m) - fst m) (drop (fst m) s)"

definition group :: "nat \<times> mstate \<Rightarrow> nat \<Rightarrow> string option" where
  \<comment> \<open>\<open>match[n]\<close>: the text of capture group \<open>n\<close>, if it took part\<close>
  "group m n = map_of (caps (snd m)) n"

definition rx_test :: "rx \<Rightarrow> string \<Rightarrow> bool" where
  \<comment> \<open>\<open>r.test(s)\<close>\<close>
  "rx_test r s = (exec_from r 0 s \<noteq> None)"

function replace_all :: "rx \<Rightarrow> string \<Rightarrow> nat \<Rightarrow> string \<Rightarrow> string" where
  \<comment> \<open>\<open>s.replace(r, rep)\<close> for a pattern with the global flag and a replacement text
      without \<open>$\<close>: \<open>i\<close> is the offset of \<open>s\<close> in the whole string; after an empty
      match one character is copied\<close>
  "replace_all r rep i s =
     (case ms r (MState i s []) of
        [] \<Rightarrow> (case s of [] \<Rightarrow> [] | c # cs \<Rightarrow> c # replace_all r rep (Suc i) cs)
      | st # _ \<Rightarrow>
          if i < pos st \<and> s \<noteq> []
          then rep @ replace_all r rep (pos st) (drop (pos st - i) s)
          else (case s of [] \<Rightarrow> rep | c # cs \<Rightarrow> rep @ c # replace_all r rep (Suc i) cs))"
  by pat_completeness auto
termination
  by (relation "measure (\<lambda>(r, rep, i, s). length s)") (auto simp: neq_Nil_conv)

definition lit :: "string \<Rightarrow> rx" where
  "lit s = foldr (\<lambda>c r. Seq (Chr c) r) s Eps"

definition plus :: "rx \<Rightarrow> rx" where
  \<comment> \<open>\<open>r+\<close>\<close>
  "plus r = Seq r (Star r)"

definition opt :: "rx \<Rightarrow> rx" where
  \<comment> \<open>\<open>r?\<close> and \<open>(?:r)?\<close>\<close>
  "opt r = Alt r Eps"

fun seqs :: "rx list \<Rightarrow> rx" where
  "seqs [] = Eps"
| "seqs [r] = r"
| "seqs (r # rs) = Seq r (seqs rs)"

definition any_char :: rx where
  \<comment> \<open>\<open>.\<close>: any character but a line terminator\<close>
  "any_char = Cls (\<lambda>c. c \<noteq> CHR 0x0A \<and> c \<noteq> CHR 0x0D)"

definition sp :: rx where
  \<comment> \<open>\<open>\s\<close>\<close>
  "sp = Cls is_space"

definition wd :: rx where
  \<comment> \<open>\<open>\w\<close>\<close>
  "wd = Cls is_word"

section \<open>Constants and validators\<close>

definition MIN_DOC_SENTENCES :: nat where "MIN_DOC_SENTENCES = 3"
definition MAX_GREP_CONTEXT_LINES :: nat where "MAX_GREP_CONTEXT_LINES = 1000"
definition MAX_DOC_LINES_TO_SCAN :: nat where "MAX_DOC_LINES_TO_SCAN = 30"
definition MAX_SIGNATURE_CONTINUATION_LINES :: nat where "MAX_SIGNATURE_CONTINUATION_LINES = 20"

definition ident_start :: "char \<Rightarrow> bool" where
  \<comment> \<open>\<open>[a-zA-Z_]\<close>\<close>
  "ident_start c = (is_alpha c \<or> c = CHR ''_'')"

definition ident_rest :: "char \<Rightarrow> bool" where
  \<comment> \<open>\<open>[a-zA-Z0-9_<>:,\s]\<close>\<close>
  "ident_rest c = (is_alpha c \<or> is_digit c \<or> c = CHR ''_'' \<or> c = CHR ''<'' \<or> c = CHR ''>''
                   \<or> c = CHR '':'' \<or> c = CHR '','' \<or> is_space c)"

definition ident_rx :: rx where
  \<comment> \<open>\<open>/^[a-zA-Z_][a-zA-Z0-9_<>:,\s]*$/\<close>\<close>
  "ident_rx = seqs [Bol, Cls ident_start, Star (Cls ident_rest), Eol]"

definition isValidRustIdentifier :: "string \<Rightarrow> bool" where
  "isValidRustIdentifier name = rx_test ident_rx name"

text \<open>
  \<open>path.resolve\<close> of Node on a POSIX system, for one argument: a relative path is
  taken from the working directory of the process (a parameter here, an absolute
  path), empty and \<open>.\<close> segments are dropped, and \<open>..\<close> removes the segment before it.
\<close>

fun normalize_segments :: "string list \<Rightarrow> string list \<Rightarrow> string list" where
  "normalize_segments acc [] = rev acc"
| "normalize_segments acc (seg # segs) =
     (if seg = [] \<or> seg = ''.'' then normalize_segments acc segs
      else if seg = ''..'' then normalize_segments (tl acc) segs
      else normalize_segments (seg # acc) segs)"

definition path_resolve :: "string \<Rightarrow> string \<Rightarrow> string" where
  "path_resolve process_cwd p =
     (let full = (if startsWith p ''/'' then p else process_cwd @ ''/'' @ p)
      in ''/'' @ join_with ''/'' (normalize_segments [] (split_on CHR ''/'' full)))"

definition isPathSafe :: "string \<Rightarrow> string \<Rightarrow> string option \<Rightarrow> bool" where
  \<comment> \<open>the first argument is the working directory of the process, which
      \<open>path.resolve\<close> reads; the workspace folder is given by its \<open>uri.fsPath\<close>\<close>
  "isPathSafe process_cwd filePath workspaceFolder =
     (let absolutePath = path_resolve process_cwd filePath in
      if (case workspaceFolder of
            None \<Rightarrow> False
          | Some workspacePath \<Rightarrow>
              startsWith absolutePath workspacePath \<and> endsWith absolutePath ''.rs'')
      then True
      else if str_includes absolutePath ''/.rustup/'' \<and> endsWith absolutePath ''.rs''
      then True
      else if str_includes absolutePath ''/.cargo/registry/'' \<and> endsWith absolutePath ''.rs''
      then True
      else False)"

definition grep_prefix_rx :: rx where
  \<comment> \<open>\<open>/^[^:]+\.rs[:|-]/\<close>\<close>
  "grep_prefix_rx =
     seqs [Bol, plus (Cls (\<lambda>c. c \<noteq> CHR '':'')), lit ''.rs'',
           Cls (\<lambda>c. c = CHR '':'' \<or> c = CHR ''|'' \<or> c = CHR ''-'')]"

definition stripGrepPrefix :: "string \<Rightarrow> string" where
  "stripGrepPrefix line =
     (case str_match line grep_prefix_rx of
        Some m \<Rightarrow> substring_from line (length (match0 line m))
      | None \<Rightarrow> line)"

section \<open>getStructMethods\<close>

record MethodInfo =
  signature :: string
  doc :: string
  line :: nat

record ImplBlock =
  header :: string
  comment :: "string option"
  methods :: "MethodInfo list"

record StructMethodsResult =
  all_methods :: "MethodInfo list"
  implBlocks :: "ImplBlock list"
  structName :: string
  filePath :: string

text \<open>
  The state of the loop over the lines of the search output: the local variables
  \<open>methods\<close>, \<open>implBlocks\<close> and \<open>currentImplBlock\<close>.
\<close>

record parse_state =
  st_methods :: "MethodInfo list"
  st_implBlocks :: "ImplBlock list"
  currentImplBlock :: "ImplBlock option"

subsection \<open>Resolving the name of the type\<close>

definition struct_rx :: rx where
  \<comment> \<open>\<open>/(?:pub\s+)?struct\s+(\w+)/\<close>\<close>
  "struct_rx = seqs [opt (Seq (lit ''pub'') (plus sp)), lit ''struct'', plus sp, Grp 1 (plus wd)]"

definition type_alias_rx :: rx where
  \<comment> \<open>\<open>/(?:pub\s+)?type\s+(\w+)\s*=\s*(\w+)/\<close>\<close>
  "type_alias_rx =
     seqs [opt (Seq (lit ''pub'') (plus sp)), lit ''type'', plus sp, Grp 1 (plus wd),
           Star sp, Chr CHR ''='', Star sp, Grp 2 (plus wd)]"

fun scanDeclaration :: "string list \<Rightarrow> nat list \<Rightarrow> string option" where
  \<comment> \<open>the loop over the declaration window; \<open>None\<close> is \<open>undefined\<close>\<close>
  "scanDeclaration lines [] = None"
| "scanDeclaration lines (i # is) =
     (let line = lines ! i;
          structMatch = str_match line struct_rx;
          typeAliasMatch = str_match line type_alias_rx
      in case typeAliasMatch of
           Some m \<Rightarrow> group m 2
         | None \<Rightarrow>
             (case structMatch of
                Some m \<Rightarrow> group m 1
              | None \<Rightarrow> scanDeclaration lines is))"

definition resolveStructName :: "string list \<Rightarrow> nat \<Rightarrow> string \<Rightarrow> string" where
  \<comment> \<open>lines 574 to 592: the window is at most ten lines from \<open>startLine\<close>, and an
      undefined or empty name falls back to the symbol\<close>
  "resolveStructName lines startLine symbol =
     (case scanDeclaration lines [startLine ..< min (startLine + 10) (length lines)] of
        None \<Rightarrow> symbol
      | Some name \<Rightarrow> if name = [] then symbol else name)"

subsection \<open>Search pattern and search path\<close>

definition bs :: string where
  \<comment> \<open>one backslash\<close>
  "bs = [CHR 0x5C]"

definition searchPattern :: "string \<Rightarrow> string" where
  "searchPattern name =
     ''impl'' @ bs @ ''s+(?:<[^>]+>'' @ bs @ ''s+)?'' @ name @ ''(?:<[^>]*>)?'' @ bs @ ''s*(?:for''
       @ bs @ ''s+)?'' @ bs @ ''s*'' @ bs @ ''{''"

definition isExternalCrate :: "string \<Rightarrow> string \<Rightarrow> bool" where
  "isExternalCrate defPath cwd = (\<not> str_includes defPath cwd)"

definition searchPath :: "string \<Rightarrow> string \<Rightarrow> string" where
  "searchPath defPath cwd =
     (if isExternalCrate defPath cwd
      then (let defDir = substring defPath 0 (lastIndexOf defPath ''/'') in defDir)
      else cwd)"

subsection \<open>Block headers\<close>

definition impl_rx :: rx where
  \<comment> \<open>\<open>/^(impl(?:\s+<[^>]+>)?\s+(?:[\w:]+(?:\s+for\s+)?)?[\w<>:]+)\s*\{/\<close>\<close>
  "impl_rx =
     seqs [Bol,
           Grp 1 (seqs [lit ''impl'',
                        opt (seqs [plus sp, Chr CHR ''<'', plus (Cls (\<lambda>c. c \<noteq> CHR ''>'')),
                                   Chr CHR ''>'']),
                        plus sp,
                        opt (seqs [plus (Cls (\<lambda>c. is_word c \<or> c = CHR '':'')),
                                   opt (seqs [plus sp, lit ''for'', plus sp])]),
                        plus (Cls (\<lambda>c. is_word c \<or> c = CHR ''<'' \<or> c = CHR ''>''
                                         \<or> c = CHR '':''))]),
           Star sp, Chr CHR ''{'']"

definition implMatch :: "string \<Rightarrow> string option" where
  \<comment> \<open>\<open>implMatch[1]\<close> when the line matches\<close>
  "implMatch s = (case str_match s impl_rx of None \<Rightarrow> None | Some m \<Rightarrow> group m 1)"

fun implCommentScan :: "string list \<Rightarrow> nat list \<Rightarrow> string" where
  \<comment> \<open>the backward loop of lines 644 to 655, over the indices it visits\<close>
  "implCommentScan outputLines [] = []"
| "implCommentScan outputLines (j # js) =
     (let prevLine = stripGrepPrefix (outputLines ! j);
          trimmed = trim prevLine
      in if startsWith trimmed ''///'' then trim (substring_from trimmed 3)
         else if trimmed = [] \<or> trimmed = ''--'' then implCommentScan outputLines js
         else [])"

definition implComment :: "string list \<Rightarrow> nat \<Rightarrow> string" where
  \<comment> \<open>\<open>j\<close> runs from \<open>i - 1\<close> down to \<open>max(0, i - 5)\<close>\<close>
  "implComment outputLines i = implCommentScan outputLines (rev [i - 5 ..< i])"

definition openImplBlock :: "string list \<Rightarrow> nat \<Rightarrow> string \<Rightarrow> ImplBlock" where
  "openImplBlock outputLines i hdr =
     (let c = implComment outputLines i
      in \<lparr>header = trim hdr, comment = (if c = [] then None else Some c), methods = []\<rparr>)"

definition saveBlock :: "ImplBlock option \<Rightarrow> ImplBlock list \<Rightarrow> ImplBlock list" where
  \<comment> \<open>\<open>if (currentImplBlock && currentImplBlock.methods.length > 0) implBlocks.push(...)\<close>\<close>
  "saveBlock cur blocks =
     (case cur of
        None \<Rightarrow> blocks
      | Some b \<Rightarrow> if length (methods b) > 0 then blocks @ [b] else blocks)"

subsection \<open>Signatures\<close>

definition fn_rx :: rx where
  \<comment> \<open>\<open>/(?:pub\s+)?(?:const\s+)?(?:async\s+)?(?:unsafe\s+)?fn\s+(.+)/\<close>\<close>
  "fn_rx =
     seqs [opt (Seq (lit ''pub'') (plus sp)), opt (Seq (lit ''const'') (plus sp)),
           opt (Seq (lit ''async'') (plus sp)), opt (Seq (lit ''unsafe'') (plus sp)),
           lit ''fn'', plus sp, Grp 1 (plus any_char)]"

definition fnMatch :: "string \<Rightarrow> string option" where
  \<comment> \<open>\<open>fnMatch[1]\<close> when the line matches\<close>
  "fnMatch s = (case str_match s fn_rx of None \<Rightarrow> None | Some m \<Rightarrow> group m 1)"

fun collectContinuation :: "string list \<Rightarrow> nat list \<Rightarrow> string \<Rightarrow> string" where
  \<comment> \<open>the forward loop of lines 671 to 683, over the indices it visits\<close>
  "collectContinuation outputLines [] sig = sig"
| "collectContinuation outputLines (k # ks) sig =
     (let nextLine = stripGrepPrefix (outputLines ! k);
          trimmed = trim nextLine
      in if trimmed = ''--'' \<or> trimmed = [] then collectContinuation outputLines ks sig
         else (let sig' = sig @ '' '' @ trimmed
               in if str_includes trimmed ''{'' then sig'
                  else collectContinuation outputLines ks sig'))"

definition paren_open_rx :: rx where
  \<comment> \<open>\<open>/\(\s+/g\<close>\<close>
  "paren_open_rx = Seq (Chr CHR ''('') (plus sp)"

definition paren_close_rx :: rx where
  \<comment> \<open>\<open>/\s+\)/g\<close>\<close>
  "paren_close_rx = Seq (plus sp) (Chr CHR '')'')"

definition spaces_rx :: rx where
  \<comment> \<open>\<open>/\s+/g\<close>\<close>
  "spaces_rx = plus sp"

definition truncateAtBrace :: "string \<Rightarrow> string" where
  \<comment> \<open>lines 686 to 688\<close>
  "truncateAtBrace sig =
     (if str_includes sig ''{'' then trim (substring sig 0 (indexOf sig ''{'')) else sig)"

definition normalizeWhitespace :: "string \<Rightarrow> string" where
  \<comment> \<open>lines 691 and 693\<close>
  "normalizeWhitespace sig =
     replace_all spaces_rx '' '' 0
       (replace_all paren_close_rx '')'' 0
         (replace_all paren_open_rx ''('' 0 sig))"

definition parseSignature :: "string list \<Rightarrow> nat \<Rightarrow> string \<Rightarrow> string" where
  \<comment> \<open>lines 667 to 693, from the text of \<open>fnMatch[1]\<close>; \<open>k\<close> runs from \<open>i + 1\<close> while it
      is below both the number of lines and \<open>i + MAX_SIGNATURE_CONTINUATION_LINES\<close>\<close>
  "parseSignature outputLines i cap =
     (let sig0 = trim cap;
          sig1 = (if \<not> str_includes sig0 ''{'' \<and> \<not> endsWith sig0 '')''
                  then collectContinuation outputLines
                         [i + 1 ..< min (length outputLines)
                                        (i + MAX_SIGNATURE_CONTINUATION_LINES)] sig0
                  else sig0)
      in normalizeWhitespace (truncateAtBrace sig1))"

subsection \<open>Documentation\<close>

definition keepDocLine :: "string \<Rightarrow> bool" where
  \<comment> \<open>the condition of line 714\<close>
  "keepDocLine docLine =
     (docLine \<noteq> [] \<and> \<not> startsWith docLine [CHR 0x60, CHR 0x60, CHR 0x60]
      \<and> \<not> startsWith docLine ''#'' \<and> \<not> startsWith docLine ''assert''
      \<and> \<not> startsWith docLine ''['' \<and> \<not> startsWith docLine ''*'')"

fun docScan :: "string list \<Rightarrow> nat list \<Rightarrow> string list \<Rightarrow> string list" where
  \<comment> \<open>the backward loop of lines 700 to 726, over the indices it visits, with the
      doc lines collected so far\<close>
  "docScan outputLines [] docLines = docLines"
| "docScan outputLines (j # js) docLines =
     (let prevLine = stripGrepPrefix (outputLines ! j);
          trimmed = trim prevLine
      in if trimmed = ''--'' \<or> trimmed = [] then docScan outputLines js docLines
         else if startsWith trimmed ''///'' then
           (let docLine = trim (substring_from trimmed 3)
            in if keepDocLine docLine then docScan outputLines js (docLine # docLines)
               else docScan outputLines js docLines)
         else if startsWith trimmed ''//!'' \<or> startsWith trimmed ''//''
           then docScan outputLines js docLines
         else if startsWith trimmed ''#['' then docScan outputLines js docLines
         else if length docLines > 0 then docLines
         else docScan outputLines js docLines)"

definition collectDocLines :: "string list \<Rightarrow> nat \<Rightarrow> string list" where
  \<comment> \<open>\<open>j\<close> runs from \<open>i - 1\<close> down to \<open>max(0, i - MAX_DOC_LINES_TO_SCAN)\<close>\<close>
  "collectDocLines outputLines i =
     docScan outputLines (rev [i - MAX_DOC_LINES_TO_SCAN ..< i]) []"

fun firstParagraph :: "string list \<Rightarrow> string list \<Rightarrow> string list" where
  \<comment> \<open>the loop of lines 731 to 739, with the paragraph built so far\<close>
  "firstParagraph [] paragraph = paragraph"
| "firstParagraph (l # ls) paragraph =
     (if l = [] then paragraph
      else (let paragraph' = paragraph @ [l]
            in if length paragraph' \<ge> MIN_DOC_SENTENCES then paragraph'
               else firstParagraph ls paragraph'))"

definition extractDoc :: "string list \<Rightarrow> nat \<Rightarrow> string" where
  "extractDoc outputLines i =
     (let docLines = collectDocLines outputLines i
      in if length docLines > 0 then join_with '' '' (firstParagraph docLines []) else [])"

subsection \<open>The loop over the search output\<close>

definition addMethod :: "MethodInfo \<Rightarrow> parse_state \<Rightarrow> parse_state" where
  \<comment> \<open>lines 744 to 747\<close>
  "addMethod m st =
     st\<lparr>st_methods := st_methods st @ [m],
        currentImplBlock :=
          (case currentImplBlock st of
             None \<Rightarrow> None
           | Some b \<Rightarrow> Some (b\<lparr>methods := methods b @ [m]\<rparr>))\<rparr>"

definition parseLine :: "string list \<Rightarrow> parse_state \<Rightarrow> nat \<Rightarrow> parse_state" where
  \<comment> \<open>one turn of the loop of lines 631 to 750; \<open>stripped\<close> is the local \<open>line\<close>\<close>
  "parseLine outputLines st i =
     (let stripped = stripGrepPrefix (outputLines ! i);
          st1 = (case implMatch stripped of
                   None \<Rightarrow> st
                 | Some hdr \<Rightarrow>
                     st\<lparr>st_implBlocks := saveBlock (currentImplBlock st) (st_implBlocks st),
                        currentImplBlock := Some (openImplBlock outputLines i hdr)\<rparr>)
      in case fnMatch stripped of
           None \<Rightarrow> st1
         | Some cap \<Rightarrow>
             (let sig = parseSignature outputLines i cap
              in if sig \<noteq> [] \<and> \<not> startsWith sig ''_''
                 then addMethod \<lparr>signature = sig, doc = extractDoc outputLines i, line = i\<rparr> st1
                 else st1))"

definition parseLines :: "string list \<Rightarrow> parse_state" where
  "parseLines outputLines =
     foldl (parseLine outputLines)
       \<lparr>st_methods = [], st_implBlocks = [], currentImplBlock = None\<rparr>
       [0 ..< length outputLines]"

definition parseOutput :: "string \<Rightarrow> MethodInfo list \<times> ImplBlock list" where
  \<comment> \<open>lines 626 to 757: the flat list of methods and the saved blocks\<close>
  "parseOutput stdout =
     (let st = parseLines (split_on CHR 0x0A stdout)
      in (st_methods st, saveBlock (currentImplBlock st) (st_implBlocks st)))"

text \<open>
  The function itself, with what the editor and the search tool answer as
  parameters: the first definition found (its path and the line its range starts
  at, when there is one), the path of the workspace folder (\<open>cwd\<close>, when there is
  one), the text of the file of the definition, and the search run on a pattern
  and a directory.
\<close>

definition emptyResult :: "string \<Rightarrow> StructMethodsResult" where
  "emptyResult symbol = \<lparr>all_methods = [], implBlocks = [], structName = symbol, filePath = []\<rparr>"

definition getStructMethods ::
  "string \<Rightarrow> (string \<times> nat) option \<Rightarrow> string option \<Rightarrow> string
     \<Rightarrow> (string \<Rightarrow> string \<Rightarrow> string) \<Rightarrow> StructMethodsResult" where
  "getStructMethods symbol definition_found workspace defText grep =
     (case definition_found of
        None \<Rightarrow> emptyResult symbol
      | Some (defPath, startLine) \<Rightarrow>
          (case workspace of
             None \<Rightarrow> emptyResult symbol
           | Some cwd \<Rightarrow>
               if cwd = [] then emptyResult symbol
               else
               (let lines = split_on CHR 0x0A defText;
                    name = resolveStructName lines startLine symbol
                in if \<not> isValidRustIdentifier name then emptyResult symbol
                   else (let stdout = grep (searchPattern name) (searchPath defPath cwd)
                         in if trim stdout = [] then emptyResult symbol
                            else (let r = parseOutput stdout
                                  in \<lparr>all_methods = fst r, implBlocks = snd r,
                                      structName = name, filePath = defPath\<rparr>)))))"

section \<open>escapeHtml\<close>

definition replace_char :: "char \<Rightarrow> string \<Rightarrow> string \<Rightarrow> string" where
  \<comment> \<open>\<open>text.replace(/c/g, rep)\<close> for a pattern that is one literal character\<close>
  "replace_char c rep s = concat (map (\<lambda>x. if x = c then rep else [x]) s)"

definition escapeHtml :: "string \<Rightarrow> string" where
  "escapeHtml text =
     replace_char (CHR 0x27) ''&#039;''
       (replace_char (CHR 0x22) ''&quot;''
         (replace_char CHR ''>'' ''&gt;''
           (replace_char CHR ''<'' ''&lt;''
             (replace_char CHR ''&'' ''&amp;'' text))))"

section \<open>Predicates of the properties\<close>

definition has_shell_metachar :: "string \<Rightarrow> bool" where
  \<comment> \<open>the string contains a semicolon, a backquote, the two characters \<open>$(\<close>,
      a double quote or a single quote\<close>
  "has_shell_metachar s =
     (CHR '';'' \<in> set s \<or> CHR 0x60 \<in> set s \<or> str_includes s ''$(''
      \<or> CHR 0x22 \<in> set s \<or> CHR 0x27 \<in> set s)"

definition path_under :: "string \<Rightarrow> string \<Rightarrow> bool" where
  "path_under root p = (p = root \<or> startsWith p (root @ ''/''))"

definition matches_no_declaration :: "string \<Rightarrow> bool" where
  "matches_no_declaration l =
     (str_match l struct_rx = None \<and> str_match l type_alias_rx = None)"

definition scannedLine :: "string list \<Rightarrow> nat \<Rightarrow> string" where
  "scannedLine outputLines j = trim (stripGrepPrefix (outputLines ! j))"

definition is_blank_or_separator :: "string \<Rightarrow> bool" where
  "is_blank_or_separator t = (t = [] \<or> t = ''--'')"

definition is_doc_comment :: "string \<Rightarrow> bool" where
  "is_doc_comment t = startsWith t ''///''"

definition is_ordinary_comment :: "string \<Rightarrow> bool" where
  "is_ordinary_comment t = (startsWith t ''//'' \<and> \<not> startsWith t ''///'')"

definition is_attribute :: "string \<Rightarrow> bool" where
  "is_attribute t = startsWith t ''#[''"

definition is_other_line :: "string \<Rightarrow> bool" where
  "is_other_line t =
     (\<not> is_blank_or_separator t \<and> \<not> is_doc_comment t \<and> \<not> is_ordinary_comment t
      \<and> \<not> is_attribute t)"

text \<open>
  What \<open>replace(/\s+/g, ' ')\<close> computes, written as a recursion: each run of
  white space becomes one space.
\<close>

function collapse_spaces :: "string \<Rightarrow> string" where
  "collapse_spaces [] = []"
| "collapse_spaces (x # xs) =
     (if is_space x then CHR '' '' # collapse_spaces (dropWhile is_space xs)
      else x # collapse_spaces xs)"
  by pat_completeness auto
termination
  by (relation "measure length") (auto simp: length_dropWhile_le le_imp_less_Suc)

text \<open>
  What \<open>replace(/\(\s+/g, '(')\<close> and \<open>replace(/\s+\)/g, ')')\<close> compute, written as
  recursions: the white space that follows an opening parenthesis is dropped,
  and so is the white space that a closing parenthesis follows. The normal form
  of a signature applies both and then collapses the remaining runs.
\<close>

function strip_after_open :: "string \<Rightarrow> string" where
  "strip_after_open [] = []"
| "strip_after_open (x # xs) =
     (if x = CHR ''('' \<and> xs \<noteq> [] \<and> is_space (hd xs)
      then CHR ''('' # strip_after_open (dropWhile is_space xs)
      else x # strip_after_open xs)"
  by pat_completeness auto
termination
  by (relation "measure length") (auto simp: length_dropWhile_le le_imp_less_Suc)

function strip_before_close :: "string \<Rightarrow> string" where
  "strip_before_close [] = []"
| "strip_before_close (x # xs) =
     (if is_space x
      then (case dropWhile is_space xs of
              [] \<Rightarrow> x # strip_before_close xs
            | y # ys \<Rightarrow> if y = CHR '')'' then CHR '')'' # strip_before_close ys
                        else x # strip_before_close xs)
      else x # strip_before_close xs)"
  by pat_completeness auto
termination
proof (relation "measure length", goal_cases)
  case 1
  show ?case by simp
next
  case (2 x xs)
  show ?case by simp
next
  case (3 x xs y ys)
  have "length (dropWhile is_space xs) \<le> length xs" by (rule length_dropWhile_le)
  with 3 show ?case by simp
next
  case (4 x xs y ys)
  show ?case by simp
next
  case (5 x xs)
  show ?case by simp
qed

definition signatureNormalForm :: "string \<Rightarrow> string" where
  "signatureNormalForm s = collapse_spaces (strip_before_close (strip_after_open s))"

text \<open>No two neighbouring characters of the string are both white space.\<close>

fun no_ws_run :: "string \<Rightarrow> bool" where
  "no_ws_run [] = True"
| "no_ws_run [c] = True"
| "no_ws_run (a # b # cs) = (\<not> (is_space a \<and> is_space b) \<and> no_ws_run (b # cs))"

text \<open>
  The two things one turn of the loop reads off line \<open>i\<close>: the header captured by
  the block pattern, and the method record it builds (lines 664 to 748), if any.
\<close>

definition headerAt :: "string list \<Rightarrow> nat \<Rightarrow> string option" where
  "headerAt outputLines i = implMatch (stripGrepPrefix (outputLines ! i))"

definition methodAt :: "string list \<Rightarrow> nat \<Rightarrow> MethodInfo option" where
  "methodAt outputLines i =
     (case fnMatch (stripGrepPrefix (outputLines ! i)) of
        None \<Rightarrow> None
      | Some cap \<Rightarrow>
          (let sig = parseSignature outputLines i cap
           in if sig \<noteq> [] \<and> \<not> startsWith sig ''_''
              then Some \<lparr>signature = sig, doc = extractDoc outputLines i, line = i\<rparr>
              else None))"

text \<open>
  The method records built on the lines \<open>a\<close> to \<open>b - 1\<close>; the header lines below
  \<open>n\<close> with their captured headers; each header line paired with the line of the
  next header (or \<open>n\<close> for the last one); and the block of such a pair.
\<close>

definition methodsIn :: "string list \<Rightarrow> nat \<Rightarrow> nat \<Rightarrow> MethodInfo list" where
  "methodsIn outputLines a b = List.map_filter (methodAt outputLines) [a ..< b]"

definition headers :: "string list \<Rightarrow> nat \<Rightarrow> (nat \<times> string) list" where
  "headers outputLines n =
     List.map_filter (\<lambda>i. map_option (Pair i) (headerAt outputLines i)) [0 ..< n]"

definition segments :: "string list \<Rightarrow> nat \<Rightarrow> ((nat \<times> string) \<times> nat) list" where
  "segments outputLines n =
     (let hs = headers outputLines n in zip hs (map fst (tl hs) @ [n]))"

definition blockBetween :: "string list \<Rightarrow> (nat \<times> string) \<times> nat \<Rightarrow> ImplBlock" where
  "blockBetween outputLines seg =
     (openImplBlock outputLines (fst (fst seg)) (snd (fst seg)))
       \<lparr>methods := methodsIn outputLines (fst (fst seg)) (snd seg)\<rparr>"

definition closed_segments :: "(nat \<times> string) list \<Rightarrow> ((nat \<times> string) \<times> nat) list" where
  "closed_segments hs = zip (butlast hs) (map fst (tl hs))"

definition initial_state :: parse_state where
  "initial_state = \<lparr>st_methods = [], st_implBlocks = [], currentImplBlock = None\<rparr>"

definition has_methods :: "ImplBlock \<Rightarrow> bool" where
  "has_methods b = (methods b \<noteq> [])"

definition loop_inv :: "string list \<Rightarrow> nat \<Rightarrow> parse_state \<Rightarrow> bool" where
  "loop_inv ls n st =
     (st_methods st = methodsIn ls 0 n
      \<and> (if headers ls n = [] then currentImplBlock st = None \<and> st_implBlocks st = []
         else currentImplBlock st = Some (blockBetween ls (last (headers ls n), n))
              \<and> st_implBlocks st
                  = filter has_methods (map (blockBetween ls) (closed_segments (headers ls n)))))"

text \<open>Every method record of a result: the flat list and the lists of the blocks.\<close>

definition result_methods :: "StructMethodsResult \<Rightarrow> MethodInfo list" where
  "result_methods r = all_methods r @ concat (map methods (implBlocks r))"

text \<open>
  The signature of a header split across three lines as the specification words
  it: the three lines on a single line, runs of white space collapsed to single
  spaces, cut before the opening brace. The first line is taken from the name
  of the method on.
\<close>

definition collapsedConcatenation :: "string \<Rightarrow> string \<Rightarrow> string \<Rightarrow> string" where
  "collapsedConcatenation l1 l2 l3 =
     trim (takeWhile (\<lambda>c. c \<noteq> CHR ''{'') (collapse_spaces (l1 @ '' '' @ l2 @ '' '' @ l3)))"

text \<open>A search output and a call used as a concrete instance.\<close>

definition example_output :: string where
  "example_output = join_with [CHR 0x0A]
     [''/p/src/lib.rs:impl Point {'',
      ''/p/src/lib.rs-    /// Adds two points.'',
      ''/p/src/lib.rs-    pub fn add(self,  other: Point) -> Point {'',
      ''/p/src/lib.rs-    }'',
      ''/p/src/lib.rs-    fn _internal(&self) {}'',
      ''/p/src/lib.rs-}'',
      ''/p/src/lib.rs:impl Marker for Point {'',
      ''/p/src/lib.rs-}'',
      ''/p/src/lib.rs:impl Clone for Point {'',
      ''/p/src/lib.rs-    fn clone(&self) -> Point {'',
      ''/p/src/lib.rs-}'']"

definition example_result :: StructMethodsResult where
  "example_result =
     getStructMethods ''Point'' (Some (''/p/src/lib.rs'', 0)) (Some ''/p'')
       ''pub struct Point { x: i32 }'' (\<lambda>pattern dir. example_output)"

section \<open>Properties\<close>

lemma set_replace_char:
  "set (replace_char c rep s) \<subseteq> (set s - {c}) \<union> set rep"
  by (induction s) (auto simp: replace_char_def)

text \<open>
  C10. For every input string, the result of escapeHtml contains none of the
  characters less-than, greater-than, double quote and single quote.
\<close>

theorem escapeHtml_no_delimiters:
  "CHR ''<'' \<notin> set (escapeHtml text) \<and> CHR ''>'' \<notin> set (escapeHtml text)
   \<and> CHR 0x22 \<notin> set (escapeHtml text) \<and> CHR 0x27 \<notin> set (escapeHtml text)"
proof -
  let ?t1 = "replace_char CHR ''&'' ''&amp;'' text"
  let ?t2 = "replace_char CHR ''<'' ''&lt;'' ?t1"
  let ?t3 = "replace_char CHR ''>'' ''&gt;'' ?t2"
  let ?t4 = "replace_char (CHR 0x22) ''&quot;'' ?t3"
  let ?t5 = "replace_char (CHR 0x27) ''&#039;'' ?t4"
  have s2: "set ?t2 \<subseteq> (set ?t1 - {CHR ''<''}) \<union> set ''&lt;''"
    by (rule set_replace_char)
  have s3: "set ?t3 \<subseteq> (set ?t2 - {CHR ''>''}) \<union> set ''&gt;''"
    by (rule set_replace_char)
  have s4: "set ?t4 \<subseteq> (set ?t3 - {CHR 0x22}) \<union> set ''&quot;''"
    by (rule set_replace_char)
  have s5: "set ?t5 \<subseteq> (set ?t4 - {CHR 0x27}) \<union> set ''&#039;''"
    by (rule set_replace_char)
  have n2: "CHR ''<'' \<notin> set ?t2" using s2 by auto
  have n3: "CHR ''<'' \<notin> set ?t3 \<and> CHR ''>'' \<notin> set ?t3" using s3 n2 by auto
  have n4: "CHR ''<'' \<notin> set ?t4 \<and> CHR ''>'' \<notin> set ?t4 \<and> CHR 0x22 \<notin> set ?t4"
    using s4 n3 by auto
  have n5: "CHR ''<'' \<notin> set ?t5 \<and> CHR ''>'' \<notin> set ?t5 \<and> CHR 0x22 \<notin> set ?t5
            \<and> CHR 0x27 \<notin> set ?t5"
    using s5 n4 by auto
  show ?thesis unfolding escapeHtml_def using n5 by simp
qed

theorem escapeHtml_no_delimiters_witness:
  "escapeHtml ''<a href=\"x\">'' = ''&lt;a href=&quot;x&quot;&gt;''
   \<and> CHR ''<'' \<notin> set (escapeHtml ''<a href=\"x\">'')"
  using escapeHtml_no_delimiters [of "''<a href=\"x\">''"]
  by (simp add: escapeHtml_def replace_char_def)

subsection \<open>The matcher on the patterns of the validators\<close>

declare ms.simps(8) [simp del] exec_from.simps [simp del] replace_all.simps [simp del]

lemma ms_star_cls_mem:
  "st' \<in> set (ms (Star (Cls p)) st) \<Longrightarrow> \<exists>pre. rest st = pre @ rest st' \<and> list_all p pre"
proof (induction "length (rest st)" arbitrary: st rule: less_induct)
  case less
  show ?case
  proof (cases "rest st")
    case Nil
    then have "ms (Star (Cls p)) st = [st]"
      by (subst ms.simps(8)) simp
    with less.prems show ?thesis by simp
  next
    case (Cons x xs)
    show ?thesis
    proof (cases "p x")
      case False
      with Cons have "ms (Star (Cls p)) st = [st]"
        by (subst ms.simps(8)) simp
      with less.prems show ?thesis by simp
    next
      case True
      let ?n = "MState (Suc (pos st)) xs (caps st)"
      from True Cons have eq: "ms (Star (Cls p)) st = ms (Star (Cls p)) ?n @ [st]"
        by (subst ms.simps(8)) simp
      from less.prems eq consider "st' = st" | "st' \<in> set (ms (Star (Cls p)) ?n)"
        by auto
      then show ?thesis
      proof cases
        case 1
        then show ?thesis by simp
      next
        case 2
        have "length (rest ?n) < length (rest st)" using Cons by simp
        from less.hyps [OF this 2] obtain pre where "xs = pre @ rest st'" "list_all p pre"
          by auto
        with True Cons have "rest st = (x # pre) @ rest st' \<and> list_all p (x # pre)" by simp
        then show ?thesis by blast
      qed
    qed
  qed
qed

lemma exec_from_Bol_pos:
  "0 < i \<Longrightarrow> exec_from (Seq Bol r) i s = None"
proof (induction s arbitrary: i)
  case Nil
  then show ?case by (subst exec_from.simps) simp
next
  case (Cons c cs)
  then show ?case by (subst exec_from.simps) simp
qed

lemma rx_test_Bol:
  "rx_test (Seq Bol r) s = (ms r (MState 0 s []) \<noteq> [])"
  unfolding rx_test_def
  by (subst exec_from.simps) (auto simp: exec_from_Bol_pos split: list.splits)

lemma ms_Seq_Cls:
  "ms (Seq (Cls p) r) (MState i s g) =
     (case s of [] \<Rightarrow> [] | x # xs \<Rightarrow> if p x then ms r (MState (Suc i) xs g) else [])"
  by (simp split: list.splits)

lemma ident_rx_unfold:
  "ident_rx = Seq Bol (Seq (Cls ident_start) (Seq (Star (Cls ident_rest)) Eol))"
  by (simp add: ident_rx_def)

lemma isValidRustIdentifier_chars:
  assumes "isValidRustIdentifier name"
  shows "\<exists>c cs. name = c # cs \<and> ident_start c \<and> list_all ident_rest cs"
proof -
  from assms
  have ne: "ms (Seq (Cls ident_start) (Seq (Star (Cls ident_rest)) Eol)) (MState 0 name []) \<noteq> []"
    unfolding isValidRustIdentifier_def ident_rx_unfold rx_test_Bol .
  have "\<exists>c cs. name = c # cs \<and> ident_start c"
  proof (cases name)
    case Nil
    with ne show ?thesis by (simp add: ms_Seq_Cls)
  next
    case (Cons c cs)
    with ne show ?thesis by (cases "ident_start c") (simp_all add: ms_Seq_Cls)
  qed
  then obtain c cs where name: "name = c # cs" and c: "ident_start c"
    by blast
  let ?s1 = "MState (Suc 0) cs []"
  from ne name c have "concat (map (ms Eol) (ms (Star (Cls ident_rest)) ?s1)) \<noteq> []"
    by (simp add: ms_Seq_Cls)
  then obtain st' where st': "st' \<in> set (ms (Star (Cls ident_rest)) ?s1)"
    and e: "ms Eol st' \<noteq> []"
    by auto
  from e have "rest st' = []" by (simp split: if_splits)
  with ms_star_cls_mem [OF st'] have "list_all ident_rest cs" by auto
  with name c show ?thesis by blast
qed

lemma str_includes_hd: "str_includes s (c # p) \<Longrightarrow> c \<in> set s"
  by (induction s) auto

lemma ident_rest_not_meta:
  "ident_rest c \<Longrightarrow>
     c \<noteq> CHR '';'' \<and> c \<noteq> CHR 0x60 \<and> c \<noteq> CHR ''$'' \<and> c \<noteq> CHR 0x22 \<and> c \<noteq> CHR 0x27"
  by (auto simp: ident_rest_def is_alpha_def is_digit_def is_space_def)

lemma ident_start_rest: "ident_start c \<Longrightarrow> ident_rest c"
  by (auto simp: ident_start_def ident_rest_def)

text \<open>
  C1, as the claim states it, fails for the path validator: a path under a
  toolchain directory that ends in \<open>.rs\<close> is accepted with a semicolon in it.
\<close>

theorem isPathSafe_accepts_metachar:
  "has_shell_metachar ''/home/u/.rustup/toolchains/a;b.rs''
   \<and> isPathSafe ''/'' ''/home/u/.rustup/toolchains/a;b.rs'' None"
  by code_simp

lemma identifier_rejects_metachars:
  assumes "has_shell_metachar name"
  shows "\<not> isValidRustIdentifier name"
proof
  assume "isValidRustIdentifier name"
  then obtain c cs where name: "name = c # cs" and c: "ident_start c"
    and cs: "list_all ident_rest cs"
    using isValidRustIdentifier_chars by blast
  then have all: "\<forall>x \<in> set name. ident_rest x"
    by (auto simp: list_all_iff ident_start_rest)
  from assms
  have "\<exists>x \<in> set name. x = CHR '';'' \<or> x = CHR 0x60 \<or> x = CHR ''$'' \<or> x = CHR 0x22
          \<or> x = CHR 0x27"
    unfolding has_shell_metachar_def
    using str_includes_hd [of name "CHR ''$''" "''(''"] by auto
  with all show False using ident_rest_not_meta by blast
qed

lemma isPathSafe_characterisation:
  "isPathSafe process_cwd path workspaceFolder =
     (endsWith (path_resolve process_cwd path) ''.rs''
      \<and> ((\<exists>workspacePath. workspaceFolder = Some workspacePath
              \<and> startsWith (path_resolve process_cwd path) workspacePath)
         \<or> str_includes (path_resolve process_cwd path) ''/.rustup/''
         \<or> str_includes (path_resolve process_cwd path) ''/.cargo/registry/''))"
  by (auto simp: isPathSafe_def Let_def split: option.splits)

text \<open>
  C1 (amended). For every input string containing a shell metacharacter (a
  semicolon, a backquote, \<open>$(\<close> or a quote character), the identifier validator
  isValidRustIdentifier returns false. The path validator isPathSafe does not
  look at the characters of the path: it returns true exactly when the resolved
  path ends in \<open>.rs\<close> and starts with the path of the workspace folder or
  contains \<open>/.rustup/\<close> or \<open>/.cargo/registry/\<close>.
\<close>

theorem validators_on_metachars:
  "(has_shell_metachar name \<longrightarrow> \<not> isValidRustIdentifier name)
   \<and> isPathSafe process_cwd path workspaceFolder =
       (endsWith (path_resolve process_cwd path) ''.rs''
        \<and> ((\<exists>workspacePath. workspaceFolder = Some workspacePath
                \<and> startsWith (path_resolve process_cwd path) workspacePath)
           \<or> str_includes (path_resolve process_cwd path) ''/.rustup/''
           \<or> str_includes (path_resolve process_cwd path) ''/.cargo/registry/''))"
  using identifier_rejects_metachars [of name]
    isPathSafe_characterisation [of process_cwd path workspaceFolder]
  by blast

theorem validators_on_metachars_witness:
  "has_shell_metachar ''Foo; rm -rf'' \<and> \<not> isValidRustIdentifier ''Foo; rm -rf''
   \<and> isPathSafe ''/'' ''/home/u/src/a;b.rs'' (Some ''/home/u'')"
proof -
  have m: "has_shell_metachar ''Foo; rm -rf''" by (simp add: has_shell_metachar_def)
  have p: "endsWith (path_resolve ''/'' ''/home/u/src/a;b.rs'') ''.rs''
           \<and> startsWith (path_resolve ''/'' ''/home/u/src/a;b.rs'') ''/home/u''" by code_simp
  from validators_on_metachars [of "''Foo; rm -rf''" "''/''" "''/home/u/src/a;b.rs''" "Some ''/home/u''"]
    m p show ?thesis by blast
qed

subsection \<open>Search path and type name\<close>

text \<open>
  C2. The claim asks for the directory of the declaration file whenever the
  declaration path does not lie under the workspace root. The code decides by
  \<open>defPath.includes(cwd)\<close>: a path of a dependency that merely contains the text
  of the workspace root is searched from the workspace root.
\<close>

theorem searchPath_substring_of_external_path:
  "\<not> path_under ''/src'' ''/root/.cargo/registry/src/time-0.3.44/src/lib.rs''
   \<and> \<not> startsWith ''/root/.cargo/registry/src/time-0.3.44/src/lib.rs'' ''/src''
   \<and> searchPath ''/root/.cargo/registry/src/time-0.3.44/src/lib.rs'' ''/src'' = ''/src''
   \<and> substring ''/root/.cargo/registry/src/time-0.3.44/src/lib.rs'' 0
         (lastIndexOf ''/root/.cargo/registry/src/time-0.3.44/src/lib.rs'' ''/'')
       = ''/root/.cargo/registry/src/time-0.3.44/src''"
  by code_simp

lemma scanDeclaration_skip:
  "\<forall>i \<in> set pre. str_match (lines ! i) struct_rx = None \<and> str_match (lines ! i) type_alias_rx = None
   \<Longrightarrow> scanDeclaration lines (pre @ post) = scanDeclaration lines post"
  by (induction pre) simp_all

lemma alias_line_match:
  "(case str_match ''type Foo = Bar<Baz>'' type_alias_rx of
      None \<Rightarrow> False | Some m \<Rightarrow> group m 2 = Some ''Bar'')"
  by code_simp

lemma scanDeclaration_alias:
  "lines ! i = ''type Foo = Bar<Baz>'' \<Longrightarrow> scanDeclaration lines (i # post) = Some ''Bar''"
  using alias_line_match by (simp split: option.splits)

text \<open>
  C8. When the first line of the declaration window that matches a declaration
  pattern is \<open>type Foo = Bar<Baz>\<close>, the name resolved for the symbol \<open>Foo\<close> is
  \<open>Bar\<close>.
\<close>

theorem resolveStructName_alias:
  assumes k: "k < 10" and len: "startLine + k < length lines"
    and bf: "\<forall>j < k. matches_no_declaration (lines ! (startLine + j))"
    and al: "lines ! (startLine + k) = ''type Foo = Bar<Baz>''"
  shows "resolveStructName lines startLine ''Foo'' = ''Bar''"
proof -
  let ?hi = "min (startLine + 10) (length lines)"
  have lt: "startLine + k < ?hi" using k len by simp
  have split: "[startLine ..< ?hi] = [startLine ..< startLine + k] @ (startLine + k) # [Suc (startLine + k) ..< ?hi]"
    using lt by (metis le_add1 upt_add_eq_append upt_conv_Cons less_imp_le_nat le_Suc_ex)
  have pre: "\<forall>i \<in> set [startLine ..< startLine + k].
        str_match (lines ! i) struct_rx = None \<and> str_match (lines ! i) type_alias_rx = None"
  proof
    fix i assume "i \<in> set [startLine ..< startLine + k]"
    then obtain j where "i = startLine + j" "j < k"
      by (metis atLeastLessThan_iff le_Suc_ex nat_add_left_cancel_less set_upt)
    with bf show "str_match (lines ! i) struct_rx = None \<and> str_match (lines ! i) type_alias_rx = None"
      by (simp add: matches_no_declaration_def)
  qed
  have "scanDeclaration lines [startLine ..< ?hi] = Some ''Bar''"
    by (simp only: split scanDeclaration_skip [OF pre] scanDeclaration_alias [OF al])
  then show ?thesis by (simp add: resolveStructName_def)
qed

theorem resolveStructName_alias_witness:
  "resolveStructName [''use a::Bar;'', '''', ''/// An alias.'', ''type Foo = Bar<Baz>'', ''fn f() {}''] 1 ''Foo'' = ''Bar''"
proof -
  let ?ls = "[''use a::Bar;'', '''', ''/// An alias.'', ''type Foo = Bar<Baz>'', ''fn f() {}'']"
  have a: "(2::nat) < 10" by simp
  have b: "1 + 2 < length ?ls" by simp
  have c: "\<forall>j < 2. matches_no_declaration (?ls ! (1 + j))"
  proof (intro allI impI)
    fix j :: nat assume "j < 2"
    then have "j = 0 \<or> j = 1" by auto
    moreover have "matches_no_declaration (?ls ! (1 + 0))" by code_simp
    moreover have "matches_no_declaration (?ls ! (1 + 1))" by code_simp
    ultimately show "matches_no_declaration (?ls ! (1 + j))" by auto
  qed
  have d: "?ls ! (1 + 2) = ''type Foo = Bar<Baz>''" by simp
  show ?thesis using resolveStructName_alias [OF a b c d] .
qed

subsection \<open>The backward scan for doc comments\<close>

text \<open>
  C3, as the claim states it, fails: a line of code met before any doc line has
  been collected does not end the scan, and the doc comment of the method
  before is collected.
\<close>

theorem docScan_other_line_not_terminating:
  "is_other_line (scannedLine [''/// Doc of foo'', ''fn foo() {}'', ''fn bar() {}''] 1)
   \<and> docScan [''/// Doc of foo'', ''fn foo() {}'', ''fn bar() {}''] [1, 0] [] = [''Doc of foo'']
   \<and> docScan [''/// Doc of foo'', ''fn foo() {}'', ''fn bar() {}''] [1, 0] [] \<noteq> []
   \<and> collectDocLines [''/// Doc of foo'', ''fn foo() {}'', ''fn bar() {}''] 2 = [''Doc of foo'']"
  by code_simp

lemma startsWith_3_2: "startsWith t ''///'' \<Longrightarrow> startsWith t ''//''"
  by (cases t; cases "tl t"; cases "tl (tl t)") auto

lemma startsWith_bang: "startsWith t ''//!'' \<Longrightarrow> startsWith t ''//''"
  by (cases t; cases "tl t"; cases "tl (tl t)") auto

lemma startsWith_attr:
  "startsWith t ''#['' \<Longrightarrow> \<not> startsWith t ''///'' \<and> t \<noteq> [] \<and> t \<noteq> ''--''"
  by (cases t) auto

text \<open>
  C3 (amended). In the backward scan, a line that is an ordinary comment or an
  attribute is skipped; any other line (not blank, not a separator, not a doc
  comment) ends the scan when at least one doc line has been collected, and is
  skipped when none has been.
\<close>

theorem docScan_line_kinds:
  "(is_ordinary_comment (scannedLine ls j) \<or> is_attribute (scannedLine ls j)
      \<longrightarrow> docScan ls (j # js) docLines = docScan ls js docLines)
   \<and> (is_other_line (scannedLine ls j) \<and> docLines \<noteq> []
      \<longrightarrow> docScan ls (j # js) docLines = docLines)
   \<and> (is_other_line (scannedLine ls j) \<and> docLines = []
      \<longrightarrow> docScan ls (j # js) docLines = docScan ls js docLines)"
proof -
  let ?t = "trim (stripGrepPrefix (ls ! j))"
  have a: "is_ordinary_comment ?t \<Longrightarrow> docScan ls (j # js) docLines = docScan ls js docLines"
    by (auto simp: is_ordinary_comment_def Let_def)
  have b: "is_attribute ?t \<Longrightarrow> docScan ls (j # js) docLines = docScan ls js docLines"
    using startsWith_attr [of ?t] by (auto simp: is_attribute_def Let_def)
  have c: "is_other_line ?t \<Longrightarrow> docLines \<noteq> [] \<Longrightarrow> docScan ls (j # js) docLines = docLines"
    using startsWith_3_2 [of ?t] startsWith_bang [of ?t]
    by (auto simp: is_other_line_def is_blank_or_separator_def is_doc_comment_def
        is_ordinary_comment_def is_attribute_def Let_def)
  have d: "is_other_line ?t \<Longrightarrow> docLines = [] \<Longrightarrow> docScan ls (j # js) docLines = docScan ls js docLines"
    using startsWith_3_2 [of ?t] startsWith_bang [of ?t]
    by (auto simp: is_other_line_def is_blank_or_separator_def is_doc_comment_def
        is_ordinary_comment_def is_attribute_def Let_def)
  show ?thesis unfolding scannedLine_def using a b c d by blast
qed

theorem docScan_line_kinds_witness:
  "docScan [''/// Doc of foo'', ''// note'', ''#[inline]'', ''fn bar() {}''] [2, 1, 0] [] = [''Doc of foo'']
   \<and> docScan [''/// Doc of foo'', ''let x = 1;'', ''/// Doc of bar'', ''fn bar() {}''] [1, 0] [''Doc of bar''] = [''Doc of bar'']"
proof -
  let ?a = "[''/// Doc of foo'', ''// note'', ''#[inline]'', ''fn bar() {}'']"
  let ?b = "[''/// Doc of foo'', ''let x = 1;'', ''/// Doc of bar'', ''fn bar() {}'']"
  have k2: "is_attribute (scannedLine ?a 2)" by code_simp
  have k1: "is_ordinary_comment (scannedLine ?a 1)" by code_simp
  have o: "is_other_line (scannedLine ?b 1)" by code_simp
  have "docScan ?a [2, 1, 0] [] = docScan ?a [1, 0] []"
    using docScan_line_kinds [of ?a 2 "[1, 0]" "[]"] k2 by blast
  also have "\<dots> = docScan ?a [0] []"
    using docScan_line_kinds [of ?a 1 "[0]" "[]"] k1 by blast
  also have "\<dots> = [''Doc of foo'']" by code_simp
  finally have 1: "docScan ?a [2, 1, 0] [] = [''Doc of foo'']" .
  have 2: "docScan ?b [1, 0] [''Doc of bar''] = [''Doc of bar'']"
    using docScan_line_kinds [of ?b 1 "[0]" "[''Doc of bar'']"] o by blast
  show ?thesis using 1 2 by blast
qed

lemma docScan_step:
  "docScan ls (j # js) acc = docScan ls js acc
   \<or> (\<exists>d. keepDocLine d \<and> docScan ls (j # js) acc = docScan ls js (d # acc))
   \<or> docScan ls (j # js) acc = acc"
  by (simp add: Let_def) blast

lemma docScan_nonempty_lines:
  "[] \<notin> set docLines \<Longrightarrow> [] \<notin> set (docScan ls js docLines)"
proof (induction js arbitrary: docLines)
  case Nil
  then show ?case by simp
next
  case (Cons j js)
  from docScan_step [of ls j js docLines]
  consider "docScan ls (j # js) docLines = docScan ls js docLines"
    | d where "keepDocLine d" "docScan ls (j # js) docLines = docScan ls js (d # docLines)"
    | "docScan ls (j # js) docLines = docLines"
    by blast
  then show ?case
  proof cases
    case 1
    with Cons show ?thesis by simp
  next
    case 2
    from 2(1) have "d \<noteq> []" by (simp add: keepDocLine_def)
    with Cons.prems have "[] \<notin> set (d # docLines)" by auto
    from Cons.IH [OF this] 2(2) show ?thesis by simp
  next
    case 3
    with Cons.prems show ?thesis by simp
  qed
qed


lemma firstParagraph_take:
  "[] \<notin> set ls \<Longrightarrow> length acc < MIN_DOC_SENTENCES
     \<Longrightarrow> firstParagraph ls acc = take MIN_DOC_SENTENCES (acc @ ls)"
proof (induction ls arbitrary: acc)
  case Nil
  then show ?case by simp
next
  case (Cons l ls)
  from Cons.prems have l: "l \<noteq> []" and ls: "[] \<notin> set ls" by auto
  show ?case
  proof (cases "length (acc @ [l]) \<ge> MIN_DOC_SENTENCES")
    case True
    with Cons.prems have "length (acc @ [l]) = MIN_DOC_SENTENCES" by simp
    then have "take MIN_DOC_SENTENCES ((acc @ [l]) @ ls) = acc @ [l]"
      by (simp only: append_eq_conv_conj take_append take_all_iff) simp
    with True l show ?thesis by (simp add: Let_def)
  next
    case False
    then have "length (acc @ [l]) < MIN_DOC_SENTENCES" by simp
    from Cons.IH [OF ls this] False l show ?thesis by (simp add: Let_def)
  qed
qed

text \<open>
  C7. The documentation of a method is the first MIN_DOC_SENTENCES = 3 collected
  doc lines at most, joined by single spaces; so five consecutive doc-comment
  lines give a documentation of three lines.
\<close>

theorem extractDoc_at_most_three_lines:
  "extractDoc ls i = join_with '' '' (take MIN_DOC_SENTENCES (collectDocLines ls i))
   \<and> length (take MIN_DOC_SENTENCES (collectDocLines ls i)) \<le> 3"
proof -
  have ne: "[] \<notin> set (collectDocLines ls i)"
    unfolding collectDocLines_def by (rule docScan_nonempty_lines) simp
  have fp: "firstParagraph (collectDocLines ls i) [] = take MIN_DOC_SENTENCES (collectDocLines ls i)"
    using firstParagraph_take [OF ne, of "[]"] by (simp add: MIN_DOC_SENTENCES_def)
  have len: "length (take MIN_DOC_SENTENCES (collectDocLines ls i)) \<le> 3"
    by (simp add: MIN_DOC_SENTENCES_def)
  have "extractDoc ls i = join_with '' '' (take MIN_DOC_SENTENCES (collectDocLines ls i))"
  proof (cases "collectDocLines ls i")
    case Nil
    then show ?thesis by (simp add: extractDoc_def)
  next
    case (Cons a as)
    then have "extractDoc ls i = join_with '' '' (firstParagraph (collectDocLines ls i) [])"
      by (simp add: extractDoc_def)
    then show ?thesis by (simp only: fp)
  qed
  with len show ?thesis by blast
qed

theorem extractDoc_at_most_three_lines_witness:
  "collectDocLines [''/// one'', ''/// two'', ''/// three'', ''/// four'', ''/// five'', ''fn bar() {}''] 5
     = [''one'', ''two'', ''three'', ''four'', ''five'']
   \<and> extractDoc [''/// one'', ''/// two'', ''/// three'', ''/// four'', ''/// five'', ''fn bar() {}''] 5
     = ''one two three''"
proof -
  let ?ls = "[''/// one'', ''/// two'', ''/// three'', ''/// four'', ''/// five'', ''fn bar() {}'']"
  have c: "collectDocLines ?ls 5 = [''one'', ''two'', ''three'', ''four'', ''five'']" by code_simp
  have j: "join_with '' '' (take MIN_DOC_SENTENCES [''one'', ''two'', ''three'', ''four'', ''five''])
            = ''one two three''" by code_simp
  have "extractDoc ?ls 5 = join_with '' '' (take MIN_DOC_SENTENCES (collectDocLines ?ls 5))"
    using extractDoc_at_most_three_lines [of ?ls 5] by blast
  then have "extractDoc ?ls 5 = ''one two three''" by (simp only: c j)
  with c show ?thesis by blast
qed

subsection \<open>Normalised signatures\<close>

lemma set_replace_all: "set (replace_all r rep i s) \<subseteq> set s \<union> set rep"
proof (induction r rep i s rule: replace_all.induct)
  case (1 r rep i s)
  show ?case
  proof (cases "ms r (MState i s [])")
    case Nil
    show ?thesis
    proof (cases s)
      case Nil
      with \<open>ms r (MState i s []) = []\<close> show ?thesis by (subst replace_all.simps) simp
    next
      case (Cons c cs)
      with 1(1) [OF \<open>ms r (MState i s []) = []\<close> Cons] \<open>ms r (MState i s []) = []\<close>
      show ?thesis by (subst replace_all.simps) auto
    qed
  next
    case (Cons st sts)
    show ?thesis
    proof (cases "i < pos st \<and> s \<noteq> []")
      case True
      from 1(2) [OF Cons True]
      have "set (replace_all r rep (pos st) (drop (pos st - i) s)) \<subseteq> set s \<union> set rep"
        using set_drop_subset [of "pos st - i" s] by blast
      with Cons True show ?thesis by (subst replace_all.simps) auto
    next
      case False
      show ?thesis
      proof (cases s)
        case Nil
        with Cons False show ?thesis by (subst replace_all.simps) auto
      next
        case (Cons c cs)
        with 1(3) [OF \<open>ms r (MState i s []) = st # sts\<close> False Cons]
          \<open>ms r (MState i s []) = st # sts\<close> False
        show ?thesis by (subst replace_all.simps) auto
      qed
    qed
  qed
qed

lemma ms_star_cls_head:
  "\<exists>t. ms (Star (Cls p)) (MState i s g)
         = MState (i + length (takeWhile p s)) (dropWhile p s) g # t"
proof (induction s arbitrary: i)
  case Nil
  show ?case by (subst ms.simps(8)) simp
next
  case (Cons x xs)
  show ?case
  proof (cases "p x")
    case True
    from Cons [of "Suc i"] obtain t where
      "ms (Star (Cls p)) (MState (Suc i) xs g)
         = MState (Suc i + length (takeWhile p xs)) (dropWhile p xs) g # t" by blast
    with True show ?thesis by (subst ms.simps(8)) simp
  next
    case False
    then show ?thesis by (subst ms.simps(8)) simp
  qed
qed

lemma spaces_rx_unfold: "spaces_rx = Seq (Cls is_space) (Star (Cls is_space))"
  by (simp add: spaces_rx_def plus_def sp_def)

lemma replace_all_spaces:
  "replace_all spaces_rx '' '' i s = collapse_spaces s"
proof (induction s arbitrary: i rule: collapse_spaces.induct)
  case 1
  show ?case by (subst replace_all.simps) (simp add: spaces_rx_unfold ms_Seq_Cls)
next
  case (2 x xs)
  show ?case
  proof (cases "is_space x")
    case False
    with 2(2) [OF False, of "Suc i"] show ?thesis
      by (subst replace_all.simps) (simp add: spaces_rx_unfold ms_Seq_Cls)
  next
    case True
    let ?n = "length (takeWhile is_space xs)"
    obtain t where m: "ms (Star (Cls is_space)) (MState (Suc i) xs [])
         = MState (Suc i + ?n) (dropWhile is_space xs) [] # t"
      using ms_star_cls_head [of is_space "Suc i" xs "[]"] by blast
    have d: "drop ?n xs = dropWhile is_space xs"
      by (simp add: dropWhile_eq_drop)
    have "replace_all spaces_rx '' '' i (x # xs)
            = '' '' @ replace_all spaces_rx '' '' (Suc i + ?n) (drop (Suc i + ?n - i) (x # xs))"
      using True m by (subst replace_all.simps) (simp add: spaces_rx_unfold ms_Seq_Cls)
    also have "drop (Suc i + ?n - i) (x # xs) = dropWhile is_space xs"
      using d by simp
    finally show ?thesis using 2(1) [OF True, of "Suc i + ?n"] True by simp
  qed
qed

lemma collapse_spaces_head:
  "collapse_spaces s = c # cs \<Longrightarrow> is_space c \<Longrightarrow> s \<noteq> [] \<and> is_space (hd s)"
  by (cases s) (auto split: if_splits)

lemma no_ws_run_Cons:
  "no_ws_run cs \<Longrightarrow> (cs \<noteq> [] \<Longrightarrow> \<not> (is_space a \<and> is_space (hd cs))) \<Longrightarrow> no_ws_run (a # cs)"
  by (cases cs) auto

lemma dropWhile_hd: "dropWhile p xs \<noteq> [] \<Longrightarrow> \<not> p (hd (dropWhile p xs))"
  by (metis hd_dropWhile)

lemma no_ws_run_collapse: "no_ws_run (collapse_spaces s)"
proof (induction s rule: collapse_spaces.induct)
  case 1
  show ?case by simp
next
  case (2 x xs)
  show ?case
  proof (cases "is_space x")
    case True
    let ?d = "dropWhile is_space xs"
    have "collapse_spaces ?d \<noteq> [] \<Longrightarrow> \<not> is_space (hd (collapse_spaces ?d))"
    proof
      assume ne: "collapse_spaces ?d \<noteq> []" and sp: "is_space (hd (collapse_spaces ?d))"
      then obtain c cs where "collapse_spaces ?d = c # cs" "is_space c"
        by (cases "collapse_spaces ?d") auto
      from collapse_spaces_head [OF this] have "?d \<noteq> []" "is_space (hd ?d)" by auto
      with dropWhile_hd [of is_space xs] show False by blast
    qed
    with 2(1) [OF True] True show ?thesis
      by (simp add: no_ws_run_Cons)
  next
    case False
    with 2(2) [OF False] show ?thesis by (simp add: no_ws_run_Cons)
  qed
qed

lemma str_includes_single: "str_includes s [c] = (c \<in> set s)"
  by (induction s) auto

lemma indexOf_from_single:
  "c \<in> set s \<Longrightarrow> indexOf_from s [c] i = int (i + length (takeWhile (\<lambda>x. x \<noteq> c) s))"
  by (induction s arbitrary: i) auto

lemma substring_prefix: "n \<le> length s \<Longrightarrow> substring s 0 (int n) = take n s"
  by (simp add: substring_def Let_def min_def max_def)

lemma set_trim: "set (trim s) \<subseteq> set s"
proof
  fix c assume "c \<in> set (trim s)"
  then have "c \<in> set (dropWhile is_space (rev (dropWhile is_space s)))"
    by (simp add: trim_def)
  then have "c \<in> set (rev (dropWhile is_space s))" by (rule set_dropWhileD)
  then have "c \<in> set (dropWhile is_space s)" by simp
  then show "c \<in> set s" by (rule set_dropWhileD)
qed

lemma truncateAtBrace_no_brace: "CHR ''{'' \<notin> set (truncateAtBrace s)"
proof (cases "CHR ''{'' \<in> set s")
  case False
  then show ?thesis by (simp add: truncateAtBrace_def str_includes_single)
next
  case True
  let ?n = "length (takeWhile (\<lambda>x. x \<noteq> CHR ''{'') s)"
  have ix: "indexOf s ''{'' = int ?n"
    using indexOf_from_single [OF True, of 0] by (simp add: indexOf_def)
  have le: "?n \<le> length s" by (rule length_takeWhile_le)
  have "substring s 0 (int ?n) = take ?n s" using le by (rule substring_prefix)
  also have "\<dots> = takeWhile (\<lambda>x. x \<noteq> CHR ''{'') s"
    by (rule takeWhile_eq_take [symmetric])
  finally have "substring s 0 (indexOf s ''{'') = takeWhile (\<lambda>x. x \<noteq> CHR ''{'') s"
    by (simp only: ix)
  moreover have "CHR ''{'' \<notin> set (takeWhile (\<lambda>x. x \<noteq> CHR ''{'') s)"
    by (auto dest: set_takeWhileD)
  ultimately show ?thesis using True set_trim [of "takeWhile (\<lambda>x. x \<noteq> CHR ''{'') s"]
    by (auto simp: truncateAtBrace_def str_includes_single)
qed

lemma normalizeWhitespace_props:
  "CHR ''{'' \<notin> set s \<Longrightarrow>
     CHR ''{'' \<notin> set (normalizeWhitespace s) \<and> no_ws_run (normalizeWhitespace s)"
proof -
  assume s: "CHR ''{'' \<notin> set s"
  let ?a = "replace_all paren_open_rx ''('' 0 s"
  let ?b = "replace_all paren_close_rx '')'' 0 ?a"
  have a: "CHR ''{'' \<notin> set ?a" using set_replace_all [of paren_open_rx "''(''" 0 s] s by auto
  have b: "CHR ''{'' \<notin> set ?b" using set_replace_all [of paren_close_rx "'')''" 0 ?a] a by auto
  have c: "CHR ''{'' \<notin> set (replace_all spaces_rx '' '' 0 ?b)"
    using set_replace_all [of spaces_rx "'' ''" 0 ?b] b by auto
  show ?thesis using c unfolding normalizeWhitespace_def
    by (simp add: replace_all_spaces no_ws_run_collapse)
qed

lemma parseSignature_props:
  "CHR ''{'' \<notin> set (parseSignature ls i cap) \<and> no_ws_run (parseSignature ls i cap)"
  unfolding parseSignature_def Let_def
  by (rule normalizeWhitespace_props) (rule truncateAtBrace_no_brace)

subsection \<open>The loop over the search output\<close>

lemma parseLine_eq:
  "parseLine ls st i =
     (let st1 = (case headerAt ls i of
                   None \<Rightarrow> st
                 | Some hdr \<Rightarrow>
                     st\<lparr>st_implBlocks := saveBlock (currentImplBlock st) (st_implBlocks st),
                        currentImplBlock := Some (openImplBlock ls i hdr)\<rparr>)
      in case methodAt ls i of None \<Rightarrow> st1 | Some m \<Rightarrow> addMethod m st1)"
  by (simp add: parseLine_def headerAt_def methodAt_def Let_def split: option.splits)

lemma map_filter_append:
  "List.map_filter f (xs @ ys) = List.map_filter f xs @ List.map_filter f ys"
  by (simp add: List.map_filter_def)

lemma methodsIn_Suc:
  "a \<le> n \<Longrightarrow> methodsIn ls a (Suc n)
     = methodsIn ls a n @ (case methodAt ls n of None \<Rightarrow> [] | Some m \<Rightarrow> [m])"
  by (simp add: methodsIn_def map_filter_append List.map_filter_def split: option.splits)

lemma methodsIn_empty: "methodsIn ls n n = []"
  by (simp add: methodsIn_def List.map_filter_def)

lemma headers_Suc:
  "headers ls (Suc n)
     = headers ls n @ (case headerAt ls n of None \<Rightarrow> [] | Some h \<Rightarrow> [(n, h)])"
  by (simp add: headers_def map_filter_append List.map_filter_def split: option.splits)

lemma headers_bound: "x \<in> set (headers ls n) \<Longrightarrow> fst x < n"
  by (auto simp: headers_def List.map_filter_def)

lemma segments_nonempty:
  "hs \<noteq> [] \<Longrightarrow> zip hs (map fst (tl hs) @ [n]) = closed_segments hs @ [(last hs, n)]"
proof -
  assume ne: "hs \<noteq> []"
  then have hs: "hs = butlast hs @ [last hs]" by simp
  have len: "length (butlast hs) = length (map fst (tl hs))" by simp
  have "zip (butlast hs @ [last hs]) (map fst (tl hs) @ [n])
          = zip (butlast hs) (map fst (tl hs)) @ zip [last hs] [n]"
    using len by (rule zip_append)
  with hs show ?thesis by (simp add: closed_segments_def)
qed

lemma closed_segments_snoc:
  "hs \<noteq> [] \<Longrightarrow> closed_segments (hs @ [(n, h)]) = closed_segments hs @ [(last hs, n)]"
proof -
  assume ne: "hs \<noteq> []"
  have "closed_segments (hs @ [(n, h)]) = zip hs (map fst (tl hs) @ [n])"
    using ne by (simp add: closed_segments_def butlast_append)
  with segments_nonempty [OF ne] show ?thesis by simp
qed

lemma closed_segments_single: "closed_segments [x] = []"
  by (simp add: closed_segments_def)

lemma openImplBlock_methods: "methods (openImplBlock ls i h) = []"
  by (simp add: openImplBlock_def Let_def)

lemma blockBetween_Suc:
  "a \<le> n \<Longrightarrow>
   blockBetween ls ((a, h), Suc n) =
     (case methodAt ls n of
        None \<Rightarrow> blockBetween ls ((a, h), n)
      | Some m \<Rightarrow> (blockBetween ls ((a, h), n))\<lparr>methods := methods (blockBetween ls ((a, h), n)) @ [m]\<rparr>)"
  by (simp add: blockBetween_def methodsIn_Suc split: option.splits)

lemma blockBetween_fresh:
  "blockBetween ls ((n, h), Suc n) =
     (case methodAt ls n of
        None \<Rightarrow> openImplBlock ls n h
      | Some m \<Rightarrow> (openImplBlock ls n h)\<lparr>methods := methods (openImplBlock ls n h) @ [m]\<rparr>)"
  by (simp add: blockBetween_def methodsIn_Suc methodsIn_empty openImplBlock_def Let_def
      split: option.splits)

lemma loop_inv_step:
  assumes "loop_inv ls n st"
  shows "loop_inv ls (Suc n) (parseLine ls st n)"
proof -
  let ?hs = "headers ls n"
  from assms have M: "st_methods st = methodsIn ls 0 n"
    by (simp add: loop_inv_def)
  have M': "\<And>st1. st_methods st1 = st_methods st \<Longrightarrow>
      st_methods (case methodAt ls n of None \<Rightarrow> st1 | Some m \<Rightarrow> addMethod m st1) = methodsIn ls 0 (Suc n)"
    using M by (simp add: methodsIn_Suc addMethod_def split: option.splits)
  show ?thesis
  proof (cases "headerAt ls n")
    case None
    then have hs: "headers ls (Suc n) = ?hs" by (simp add: headers_Suc)
    have pl: "parseLine ls st n = (case methodAt ls n of None \<Rightarrow> st | Some m \<Rightarrow> addMethod m st)"
      using None by (simp add: parseLine_eq)
    show ?thesis
    proof (cases "?hs = []")
      case True
      with assms have "currentImplBlock st = None" "st_implBlocks st = []"
        by (simp_all add: loop_inv_def)
      then show ?thesis using True hs M' [of st] pl
        by (simp add: loop_inv_def addMethod_def split: option.splits)
    next
      case False
      obtain a h where last: "last ?hs = (a, h)" by (cases "last ?hs")
      from False have "last ?hs \<in> set ?hs" by simp
      from headers_bound [OF this] last have an: "a \<le> n" by simp
      from assms False last have cur: "currentImplBlock st = Some (blockBetween ls ((a, h), n))"
        and bl: "st_implBlocks st = filter has_methods (map (blockBetween ls) (closed_segments ?hs))"
        by (simp_all add: loop_inv_def)
      show ?thesis using False hs M' [of st] pl cur bl last blockBetween_Suc [OF an, of ls h]
        by (simp add: loop_inv_def addMethod_def split: option.splits)
    qed
  next
    case (Some hdr)
    then have hs: "headers ls (Suc n) = ?hs @ [(n, hdr)]" by (simp add: headers_Suc)
    let ?st1 = "st\<lparr>st_implBlocks := saveBlock (currentImplBlock st) (st_implBlocks st),
                    currentImplBlock := Some (openImplBlock ls n hdr)\<rparr>"
    have pl: "parseLine ls st n = (case methodAt ls n of None \<Rightarrow> ?st1 | Some m \<Rightarrow> addMethod m ?st1)"
      using Some by (simp add: parseLine_eq Let_def)
    have blocks: "st_implBlocks ?st1
        = filter has_methods (map (blockBetween ls) (closed_segments (?hs @ [(n, hdr)])))"
    proof (cases "?hs = []")
      case True
      with assms have "currentImplBlock st = None" "st_implBlocks st = []"
        by (simp_all add: loop_inv_def)
      with True show ?thesis by (simp add: saveBlock_def closed_segments_single)
    next
      case False
      from assms False have cur: "currentImplBlock st = Some (blockBetween ls (last ?hs, n))"
        and bl: "st_implBlocks st = filter has_methods (map (blockBetween ls) (closed_segments ?hs))"
        by (simp_all add: loop_inv_def)
      show ?thesis using cur bl closed_segments_snoc [OF False, of n hdr]
        by (simp add: saveBlock_def has_methods_def)
    qed
    have cur': "currentImplBlock (case methodAt ls n of None \<Rightarrow> ?st1 | Some m \<Rightarrow> addMethod m ?st1)
        = Some (blockBetween ls ((n, hdr), Suc n))"
      by (simp add: blockBetween_fresh addMethod_def split: option.splits)
    have blocks': "st_implBlocks (case methodAt ls n of None \<Rightarrow> ?st1 | Some m \<Rightarrow> addMethod m ?st1)
        = st_implBlocks ?st1"
      by (simp add: addMethod_def split: option.splits)
    have "st_methods ?st1 = st_methods st" by simp
    from M' [OF this] have m': "st_methods (parseLine ls st n) = methodsIn ls 0 (Suc n)"
      by (simp only: pl)
    show ?thesis unfolding loop_inv_def hs
      using m' cur' blocks' blocks by (simp only: pl) simp
  qed
qed

lemma loop_inv_prefix:
  "loop_inv ls n (foldl (parseLine ls) initial_state [0 ..< n])"
proof (induction n)
  case 0
  show ?case
    by (simp add: loop_inv_def initial_state_def methodsIn_def headers_def List.map_filter_def)
next
  case (Suc n)
  from loop_inv_step [OF Suc] show ?case by simp
qed

lemma parseOutput_characterisation:
  assumes "ls = split_on (CHR 0x0A) stdout"
  shows "fst (parseOutput stdout) = methodsIn ls 0 (length ls)"
    and "snd (parseOutput stdout)
           = filter has_methods (map (blockBetween ls) (segments ls (length ls)))"
proof -
  let ?st = "parseLines ls"
  have inv: "loop_inv ls (length ls) ?st"
    using loop_inv_prefix [of ls "length ls"] by (simp add: parseLines_def initial_state_def)
  then show "fst (parseOutput stdout) = methodsIn ls 0 (length ls)"
    using assms by (simp add: parseOutput_def Let_def loop_inv_def)
  let ?hs = "headers ls (length ls)"
  show "snd (parseOutput stdout)
           = filter has_methods (map (blockBetween ls) (segments ls (length ls)))"
  proof (cases "?hs = []")
    case True
    with inv have "currentImplBlock ?st = None" "st_implBlocks ?st = []"
      by (simp_all add: loop_inv_def)
    with True assms show ?thesis
      by (simp add: parseOutput_def Let_def saveBlock_def segments_def)
  next
    case False
    with inv have cur: "currentImplBlock ?st = Some (blockBetween ls (last ?hs, length ls))"
      and bl: "st_implBlocks ?st = filter has_methods (map (blockBetween ls) (closed_segments ?hs))"
      by (simp_all add: loop_inv_def)
    have "segments ls (length ls) = closed_segments ?hs @ [(last ?hs, length ls)]"
      using segments_nonempty [OF False] by (simp add: segments_def Let_def)
    with cur bl assms show ?thesis
      by (simp add: parseOutput_def Let_def saveBlock_def has_methods_def)
  qed
qed

lemma methodsIn_mem:
  "m \<in> set (methodsIn ls a b) \<Longrightarrow> \<exists>i. a \<le> i \<and> i < b \<and> methodAt ls i = Some m"
  by (auto simp: methodsIn_def List.map_filter_def)

lemma methodAt_line: "methodAt ls i = Some m \<Longrightarrow> line m = i"
  by (auto simp: methodAt_def Let_def split: option.splits if_splits)

lemma methodAt_signature:
  "methodAt ls i = Some m \<Longrightarrow>
     signature m \<noteq> [] \<and> \<not> startsWith (signature m) ''_''
     \<and> CHR ''{'' \<notin> set (signature m) \<and> no_ws_run (signature m)"
proof -
  assume a: "methodAt ls i = Some m"
  then obtain cap where "fnMatch (stripGrepPrefix (ls ! i)) = Some cap"
    and s: "signature m = parseSignature ls i cap"
    and g: "parseSignature ls i cap \<noteq> []" "\<not> startsWith (parseSignature ls i cap) ''_''"
    by (auto simp: methodAt_def Let_def split: option.splits if_splits)
  with parseSignature_props [of ls i cap] show ?thesis by simp
qed

lemma parseOutput_methods:
  assumes "m \<in> set (fst (parseOutput stdout)) \<or>
           (\<exists>b \<in> set (snd (parseOutput stdout)). m \<in> set (methods b))"
  shows "\<exists>ls i. methodAt ls i = Some m"
proof -
  let ?ls = "split_on (CHR 0x0A) stdout"
  note ch = parseOutput_characterisation [OF refl, of stdout]
  from assms show ?thesis
  proof
    assume "m \<in> set (fst (parseOutput stdout))"
    with ch(1) methodsIn_mem show ?thesis by metis
  next
    assume "\<exists>b \<in> set (snd (parseOutput stdout)). m \<in> set (methods b)"
    then obtain b where b: "b \<in> set (snd (parseOutput stdout))" and m: "m \<in> set (methods b)"
      by blast
    from b ch(2) obtain seg where "b = blockBetween ?ls seg" by auto
    with m have "m \<in> set (methodsIn ?ls (fst (fst seg)) (snd seg))"
      by (simp add: blockBetween_def)
    with methodsIn_mem show ?thesis by metis
  qed
qed

lemma getStructMethods_cases:
  "(all_methods (getStructMethods s0 d w t g) = [] \<and> implBlocks (getStructMethods s0 d w t g) = [])
   \<or> (\<exists>stdout. all_methods (getStructMethods s0 d w t g) = fst (parseOutput stdout)
          \<and> implBlocks (getStructMethods s0 d w t g) = snd (parseOutput stdout))"
  by (auto simp: getStructMethods_def emptyResult_def Let_def split: option.splits prod.splits)

lemma result_methods_origin:
  assumes "m \<in> set (result_methods (getStructMethods s0 d w t g))"
  shows "\<exists>ls i. methodAt ls i = Some m"
proof -
  from getStructMethods_cases [of s0 d w t g] show ?thesis
  proof
    assume "all_methods (getStructMethods s0 d w t g) = []
            \<and> implBlocks (getStructMethods s0 d w t g) = []"
    with assms show ?thesis by (simp add: result_methods_def)
  next
    assume "\<exists>stdout. all_methods (getStructMethods s0 d w t g) = fst (parseOutput stdout)
          \<and> implBlocks (getStructMethods s0 d w t g) = snd (parseOutput stdout)"
    then obtain stdout where
      "all_methods (getStructMethods s0 d w t g) = fst (parseOutput stdout)"
      "implBlocks (getStructMethods s0 d w t g) = snd (parseOutput stdout)" by blast
    with assms have "m \<in> set (fst (parseOutput stdout)) \<or>
           (\<exists>b \<in> set (snd (parseOutput stdout)). m \<in> set (methods b))"
      by (auto simp: result_methods_def)
    then show ?thesis by (rule parseOutput_methods)
  qed
qed

text \<open>
  C5. No method record of a result of getStructMethods, in the flat list or in
  a block, has a signature that starts with an underscore: the record is only
  built when the signature passes that test.
\<close>

theorem no_underscore_method_records:
  "\<forall>m \<in> set (result_methods (getStructMethods symbol definition_found workspace defText grep)).
     \<not> startsWith (signature m) ''_''"
proof
  fix m assume "m \<in> set (result_methods (getStructMethods symbol definition_found workspace defText grep))"
  from result_methods_origin [OF this] obtain ls i where "methodAt ls i = Some m" by blast
  from methodAt_signature [OF this] show "\<not> startsWith (signature m) ''_''" by blast
qed

text \<open>
  C9. Every method record of a result of getStructMethods has a signature that
  is not empty, contains no opening brace, and has no two neighbouring white
  space characters.
\<close>

theorem method_signatures_normalised:
  "\<forall>m \<in> set (result_methods (getStructMethods symbol definition_found workspace defText grep)).
     signature m \<noteq> [] \<and> CHR ''{'' \<notin> set (signature m) \<and> no_ws_run (signature m)"
proof
  fix m assume "m \<in> set (result_methods (getStructMethods symbol definition_found workspace defText grep))"
  from result_methods_origin [OF this] obtain ls i where "methodAt ls i = Some m" by blast
  from methodAt_signature [OF this]
  show "signature m \<noteq> [] \<and> CHR ''{'' \<notin> set (signature m) \<and> no_ws_run (signature m)" by blast
qed

text \<open>
  C4. The blocks of the result are, in order, the blocks of the header lines
  that have at least one method: the block of header line A, whose next header
  line is B (or the end of the output), holds exactly the method records built
  on the lines from A up to but not including B; a block without methods is not
  in the result.
\<close>

theorem implBlocks_grouping:
  assumes "ls = split_on (CHR 0x0A) stdout"
  shows "snd (parseOutput stdout)
           = filter has_methods (map (blockBetween ls) (segments ls (length ls)))
         \<and> (\<forall>seg \<in> set (segments ls (length ls)).
               methods (blockBetween ls seg) = methodsIn ls (fst (fst seg)) (snd seg)
               \<and> (\<forall>m \<in> set (methods (blockBetween ls seg)).
                     fst (fst seg) \<le> line m \<and> line m < snd seg))
         \<and> (\<forall>b \<in> set (snd (parseOutput stdout)). methods b \<noteq> [])"
proof -
  have 1: "snd (parseOutput stdout)
           = filter has_methods (map (blockBetween ls) (segments ls (length ls)))"
    using parseOutput_characterisation(2) [OF assms] .
  have 2: "\<And>seg. methods (blockBetween ls seg) = methodsIn ls (fst (fst seg)) (snd seg)"
    by (simp add: blockBetween_def)
  have 3: "\<And>seg m. m \<in> set (methods (blockBetween ls seg)) \<Longrightarrow>
              fst (fst seg) \<le> line m \<and> line m < snd seg"
  proof -
    fix seg m assume "m \<in> set (methods (blockBetween ls seg))"
    then have "m \<in> set (methodsIn ls (fst (fst seg)) (snd seg))" by (simp only: 2)
    from methodsIn_mem [OF this] obtain i where "fst (fst seg) \<le> i" "i < snd seg"
      "methodAt ls i = Some m" by blast
    with methodAt_line show "fst (fst seg) \<le> line m \<and> line m < snd seg" by blast
  qed
  have 4: "\<forall>b \<in> set (snd (parseOutput stdout)). methods b \<noteq> []"
    unfolding 1 by (simp add: has_methods_def)
  from 1 2 3 4 show ?thesis by blast
qed

lemma ms_Seq_Chr:
  "ms (Seq (Chr c) r) (MState i s g) =
     (case s of [] \<Rightarrow> [] | x # xs \<Rightarrow> if x = c then ms r (MState (Suc i) xs g) else [])"
  by (simp split: list.splits)

lemma paren_open_rx_unfold:
  "paren_open_rx = Seq (Chr CHR ''('') (Seq (Cls is_space) (Star (Cls is_space)))"
  by (simp add: paren_open_rx_def plus_def sp_def)

lemma paren_close_rx_unfold:
  "paren_close_rx = Seq (Seq (Cls is_space) (Star (Cls is_space))) (Chr CHR '')'')"
  by (simp add: paren_close_rx_def plus_def sp_def)

lemma replace_all_paren_open:
  "replace_all paren_open_rx ''('' i s = strip_after_open s"
proof (induction s arbitrary: i rule: strip_after_open.induct)
  case 1
  show ?case by (subst replace_all.simps) (simp add: paren_open_rx_unfold ms_Seq_Chr)
next
  case (2 x xs)
  show ?case
  proof (cases "x = CHR ''('' \<and> xs \<noteq> [] \<and> is_space (hd xs)")
    case False
    have m: "ms paren_open_rx (MState i (x # xs) []) = []"
      using False by (cases xs) (auto simp: paren_open_rx_unfold ms_Seq_Chr ms_Seq_Cls)
    have s: "strip_after_open (x # xs) = x # strip_after_open xs"
      using False by (simp only: strip_after_open.simps if_False)
    show ?thesis
      by (subst replace_all.simps) (simp only: m s list.case 2(2) [OF False, of "Suc i"])
  next
    case True
    then obtain y ys where xs: "xs = y # ys" and y: "is_space y" and x: "x = CHR ''(''"
      by (cases xs) auto
    let ?n = "length (takeWhile is_space ys)"
    obtain t where m: "ms (Star (Cls is_space)) (MState (Suc (Suc i)) ys [])
         = MState (Suc (Suc i) + ?n) (dropWhile is_space ys) [] # t"
      using ms_star_cls_head [of is_space "Suc (Suc i)" ys "[]"] by blast
    have d: "drop ?n ys = dropWhile is_space ys"
      by (simp add: dropWhile_eq_drop)
    have s: "strip_after_open (x # xs) = CHR ''('' # strip_after_open (dropWhile is_space xs)"
      using True by simp
    have "replace_all paren_open_rx ''('' i (x # xs)
            = ''('' @ replace_all paren_open_rx ''('' (Suc (Suc i) + ?n)
                        (drop (Suc (Suc i) + ?n - i) (x # xs))"
      using xs y x m
      by (subst replace_all.simps) (simp add: paren_open_rx_unfold ms_Seq_Chr ms_Seq_Cls)
    also have "drop (Suc (Suc i) + ?n - i) (x # xs) = dropWhile is_space xs"
      using d xs y by simp
    finally show ?thesis using 2(1) [OF True, of "Suc (Suc i) + ?n"] s by simp
  qed
qed

lemma ms_star_then_chr:
  "\<not> p c \<Longrightarrow>
   concat (map (ms (Chr c)) (ms (Star (Cls p)) (MState i s g)))
     = (if dropWhile p s \<noteq> [] \<and> hd (dropWhile p s) = c
        then [MState (Suc (i + length (takeWhile p s))) (tl (dropWhile p s)) g]
        else [])"
proof (induction s arbitrary: i)
  case Nil
  show ?case by (subst ms.simps(8)) simp
next
  case (Cons x xs)
  show ?case
  proof (cases "p x")
    case True
    with Cons.prems have xc: "x \<noteq> c" by auto
    have tw: "takeWhile p (x # xs) = x # takeWhile p xs"
      and dw: "dropWhile p (x # xs) = dropWhile p xs" using True by simp_all
    have "ms (Star (Cls p)) (MState i (x # xs) g)
            = ms (Star (Cls p)) (MState (Suc i) xs g) @ [MState i (x # xs) g]"
      using True by (subst ms.simps(8)) simp
    then have "concat (map (ms (Chr c)) (ms (Star (Cls p)) (MState i (x # xs) g)))
            = concat (map (ms (Chr c)) (ms (Star (Cls p)) (MState (Suc i) xs g)))"
      using xc by simp
    also note Cons.IH [OF Cons.prems, of "Suc i"]
    finally show ?thesis by (simp only: tw dw length_Cons add_Suc add_Suc_right)
  next
    case False
    have tw: "takeWhile p (x # xs) = []"
      and dw: "dropWhile p (x # xs) = x # xs" using False by simp_all
    have "ms (Star (Cls p)) (MState i (x # xs) g) = [MState i (x # xs) g]"
      using False by (subst ms.simps(8)) simp
    then have l: "concat (map (ms (Chr c)) (ms (Star (Cls p)) (MState i (x # xs) g)))
            = (if x = c then [MState (Suc i) xs g] else [])" by simp
    have r: "(if dropWhile p (x # xs) \<noteq> [] \<and> hd (dropWhile p (x # xs)) = c
              then [MState (Suc (i + length (takeWhile p (x # xs)))) (tl (dropWhile p (x # xs))) g]
              else [])
            = (if x = c then [MState (Suc i) xs g] else [])"
      unfolding tw dw by simp
    show ?thesis by (simp only: l r)
  qed
qed

lemma not_space_close: "\<not> is_space (CHR '')'')"
  by (simp add: is_space_def)

lemma ms_paren_close:
  "ms paren_close_rx (MState i s []) =
     (case s of
        [] \<Rightarrow> []
      | x # xs \<Rightarrow>
          if is_space x
          then (case dropWhile is_space xs of
                  [] \<Rightarrow> []
                | y # ys \<Rightarrow> if y = CHR '')''
                            then [MState (Suc (Suc i + length (takeWhile is_space xs))) ys []]
                            else [])
          else [])"
proof (cases s)
  case Nil
  then show ?thesis by (simp add: paren_close_rx_unfold)
next
  case (Cons x xs)
  show ?thesis
  proof (cases "is_space x")
    case False
    with Cons show ?thesis by (simp add: paren_close_rx_unfold)
  next
    case True
    have e: "ms paren_close_rx (MState i s [])
            = concat (map (ms (Chr CHR '')'')) (ms (Star (Cls is_space)) (MState (Suc i) xs [])))"
      using Cons True by (simp add: paren_close_rx_unfold)
    note st = ms_star_then_chr [of is_space "CHR '')''" "Suc i" xs "[]", OF not_space_close]
    show ?thesis
    proof (cases "dropWhile is_space xs")
      case Nil
      have "ms paren_close_rx (MState i s []) = []"
        by (simp only: e st Nil) simp
      then show ?thesis by (simp only: Cons list.case True if_True Nil)
    next
      case c2: (Cons y ys)
      have "ms paren_close_rx (MState i s [])
              = (if y = CHR '')'' then [MState (Suc (Suc i + length (takeWhile is_space xs))) ys []]
                 else [])"
        by (simp only: e st c2) simp
      then show ?thesis by (simp only: Cons list.case True if_True c2)
    qed
  qed
qed

lemma replace_all_paren_close:
  "replace_all paren_close_rx '')'' i s = strip_before_close s"
proof (induction s arbitrary: i rule: strip_before_close.induct)
  case 1
  show ?case by (subst replace_all.simps) (simp add: ms_paren_close)
next
  case (2 x xs)
  show ?case
  proof (cases "is_space x")
    case False
    have m: "ms paren_close_rx (MState i (x # xs) []) = []"
      by (simp only: ms_paren_close list.case False if_False)
    have s: "strip_before_close (x # xs) = x # strip_before_close xs"
      by (simp only: strip_before_close.simps False if_False)
    show ?thesis
      by (subst replace_all.simps) (simp only: m s list.case 2(4) [OF False, of "Suc i"])
  next
    case True
    show ?thesis
    proof (cases "dropWhile is_space xs")
      case Nil
      have m: "ms paren_close_rx (MState i (x # xs) []) = []"
        by (simp only: ms_paren_close list.case True if_True Nil)
      have s: "strip_before_close (x # xs) = x # strip_before_close xs"
        by (simp only: strip_before_close.simps True if_True Nil list.case)
      show ?thesis
        by (subst replace_all.simps) (simp only: m s list.case 2(1) [OF True Nil, of "Suc i"])
    next
      case (Cons y ys)
      show ?thesis
      proof (cases "y = CHR '')''")
        case False
        have m: "ms paren_close_rx (MState i (x # xs) []) = []"
          by (simp only: ms_paren_close list.case True if_True Cons False if_False)
        have s: "strip_before_close (x # xs) = x # strip_before_close xs"
          by (simp only: strip_before_close.simps True if_True Cons list.case False if_False)
        show ?thesis
          by (subst replace_all.simps)
            (simp only: m s list.case 2(3) [OF True Cons False, of "Suc i"])
      next
        case yc: True
        let ?n = "length (takeWhile is_space xs)"
        have m: "ms paren_close_rx (MState i (x # xs) []) = [MState (Suc (Suc i + ?n)) ys []]"
          by (simp only: ms_paren_close list.case True if_True Cons yc simp_thms)
        have s: "strip_before_close (x # xs) = CHR '')'' # strip_before_close ys"
          by (simp only: strip_before_close.simps True if_True Cons list.case yc simp_thms)
        have "drop ?n xs = y # ys" using Cons by (simp add: dropWhile_eq_drop)
        then have "drop (Suc ?n) xs = ys" by (metis drop_Suc tl_drop list.sel(3))
        then have d: "drop (Suc (Suc i + ?n) - i) (x # xs) = ys" by simp
        have "replace_all paren_close_rx '')'' i (x # xs)
                = '')'' @ replace_all paren_close_rx '')'' (Suc (Suc i + ?n))
                            (drop (Suc (Suc i + ?n) - i) (x # xs))"
          by (subst replace_all.simps) (simp add: m)
        then show ?thesis
          using 2(2) [OF True Cons yc, of "Suc (Suc i + ?n)"] by (simp only: d s) simp
      qed
    qed
  qed
qed

lemma normalizeWhitespace_normal_form:
  "normalizeWhitespace s = signatureNormalForm s"
  by (simp add: normalizeWhitespace_def signatureNormalForm_def replace_all_paren_open
      replace_all_paren_close replace_all_spaces)

lemma truncateAtBrace_takeWhile:
  assumes "CHR ''{'' \<in> set s"
  shows "truncateAtBrace s = trim (takeWhile (\<lambda>x. x \<noteq> CHR ''{'') s)"
proof -
  let ?n = "length (takeWhile (\<lambda>x. x \<noteq> CHR ''{'') s)"
  have ix: "indexOf s ''{'' = int ?n"
    using indexOf_from_single [OF assms, of 0] by (simp add: indexOf_def)
  have le: "?n \<le> length s" by (rule length_takeWhile_le)
  have "substring s 0 (int ?n) = take ?n s" using le by (rule substring_prefix)
  also have "\<dots> = takeWhile (\<lambda>x. x \<noteq> CHR ''{'') s"
    by (rule takeWhile_eq_take [symmetric])
  finally have "substring s 0 (indexOf s ''{'') = takeWhile (\<lambda>x. x \<noteq> CHR ''{'') s"
    by (simp only: ix)
  with assms show ?thesis by (simp add: truncateAtBrace_def str_includes_single)
qed

lemma startsWith_append: "startsWith s p \<Longrightarrow> \<exists>r. s = p @ r"
  by (induction s p rule: startsWith.induct) auto

lemma endsWith_brace:
  "endsWith t '') -> Result<T, E> {'' \<Longrightarrow> CHR ''{'' \<in> set t"
proof -
  assume "endsWith t '') -> Result<T, E> {''"
  then obtain r where "rev t = rev '') -> Result<T, E> {'' @ r"
    unfolding endsWith_def using startsWith_append by blast
  then have "CHR ''{'' \<in> set (rev t)" by simp
  then show ?thesis by simp
qed

lemma takeWhile_brace_append:
  "CHR ''{'' \<in> set a \<Longrightarrow>
     takeWhile (\<lambda>c. c \<noteq> CHR ''{'') (a @ b) = takeWhile (\<lambda>c. c \<noteq> CHR ''{'') a"
  by (rule takeWhile_append1) simp_all

text \<open>
  C6, as the claim states it, fails in two ways. The white space after an
  opening and before a closing parenthesis is removed as well, so the signature
  of a header whose parameter list is split over the lines is not the collapsed
  concatenation. And when the text after \<open>fn\<close> on the first line has no brace
  and ends in a closing parenthesis, the following lines are not read at all.
\<close>

theorem signature_differs_from_collapsed:
  "endsWith ''    ) -> Result<T, E> {'' '') -> Result<T, E> {''
   \<and> fnMatch (stripGrepPrefix ''    pub fn process('') = Some ''process(''
   \<and> parseSignature [''    pub fn process('', ''        input: &str,'', ''    ) -> Result<T, E> {'']
         0 ''process('' = ''process(input: &str,) -> Result<T, E>''
   \<and> collapsedConcatenation ''process('' ''        input: &str,'' ''    ) -> Result<T, E> {''
         = ''process( input: &str, ) -> Result<T, E>''
   \<and> parseSignature [''    pub fn process('', ''        input: &str,'', ''    ) -> Result<T, E> {'']
         0 ''process(''
       \<noteq> collapsedConcatenation ''process('' ''        input: &str,'' ''    ) -> Result<T, E> {''
   \<and> endsWith '') -> Result<T, E> {'' '') -> Result<T, E> {''
   \<and> fnMatch (stripGrepPrefix ''pub fn apply<F: Fn(u32)'') = Some ''apply<F: Fn(u32)''
   \<and> parseSignature [''pub fn apply<F: Fn(u32)'', ''    -> u32>(f: F'', '') -> Result<T, E> {'']
         0 ''apply<F: Fn(u32)'' = ''apply<F: Fn(u32)''
   \<and> collapsedConcatenation ''apply<F: Fn(u32)'' ''    -> u32>(f: F'' '') -> Result<T, E> {''
         = ''apply<F: Fn(u32) -> u32>(f: F ) -> Result<T, E>''
   \<and> parseSignature [''pub fn apply<F: Fn(u32)'', ''    -> u32>(f: F'', '') -> Result<T, E> {'']
         0 ''apply<F: Fn(u32)''
       \<noteq> collapsedConcatenation ''apply<F: Fn(u32)'' ''    -> u32>(f: F'' '') -> Result<T, E> {''"
  by code_simp

text \<open>
  C6 (amended). For a method header split across three lines whose final line
  ends in \<open>) -> Result<T, E> {\<close> (the second line neither blank nor the separator
  \<open>--\<close>), the signature is the normal form (white space after \<open>(\<close> and before \<open>)\<close>
  removed, then the runs of white space collapsed to single spaces) of: the
  trimmed text after \<open>fn\<close> on the first line alone, when that text has no brace
  and ends in a closing parenthesis; and otherwise of the concatenation of the
  three trimmed texts with single spaces, cut before the first brace and
  trimmed.
\<close>

theorem three_line_signature_normal_form:
  assumes fm: "fnMatch (stripGrepPrefix (ls ! i)) = Some cap"
    and len: "i + 2 < length ls"
    and l2: "t2 = trim (stripGrepPrefix (ls ! (i + 1)))" "t2 \<noteq> []" "t2 \<noteq> ''--''"
    and l3: "t3 = trim (stripGrepPrefix (ls ! (i + 2)))" "endsWith t3 '') -> Result<T, E> {''"
  shows "parseSignature ls i cap
           = signatureNormalForm
               (if CHR ''{'' \<notin> set (trim cap) \<and> endsWith (trim cap) '')''
                then trim cap
                else trim (takeWhile (\<lambda>c. c \<noteq> CHR ''{'')
                             (trim cap @ '' '' @ t2 @ '' '' @ t3)))"
proof -
  let ?c = "trim cap"
  let ?cut = "takeWhile (\<lambda>c. c \<noteq> CHR ''{'')"
  let ?hi = "min (length ls) (i + MAX_SIGNATURE_CONTINUATION_LINES)"
  show ?thesis
  proof (cases "CHR ''{'' \<in> set ?c")
    case True
    then have "parseSignature ls i cap = normalizeWhitespace (truncateAtBrace ?c)"
      by (simp add: parseSignature_def Let_def str_includes_single)
    also have "truncateAtBrace ?c = trim (?cut ?c)"
      using True by (rule truncateAtBrace_takeWhile)
    also have "?cut ?c = ?cut (?c @ '' '' @ t2 @ '' '' @ t3)"
      using True by (rule takeWhile_brace_append [symmetric])
    finally show ?thesis using True by (simp only: normalizeWhitespace_normal_form if_False simp_thms)
  next
    case nb: False
    show ?thesis
    proof (cases "endsWith ?c '')''")
      case True
      with nb have "parseSignature ls i cap = normalizeWhitespace (truncateAtBrace ?c)"
        by (simp add: parseSignature_def Let_def str_includes_single)
      also have "truncateAtBrace ?c = ?c"
        using nb by (simp add: truncateAtBrace_def str_includes_single)
      finally show ?thesis using nb True
        by (simp only: normalizeWhitespace_normal_form if_True simp_thms)
    next
      case ne: False
      have b3: "CHR ''{'' \<in> set t3" using l3(2) by (rule endsWith_brace)
      then have t3: "t3 \<noteq> []" "t3 \<noteq> ''--''" by auto
      have "i + 2 < ?hi" using len by (simp add: MAX_SIGNATURE_CONTINUATION_LINES_def)
      then have "\<exists>more. [i + 1 ..< ?hi] = (i + 1) # (i + 2) # more"
        by (simp add: upt_conv_Cons)
      then obtain more where idx: "[i + 1 ..< ?hi] = (i + 1) # (i + 2) # more" by blast
      have ps: "parseSignature ls i cap
                  = normalizeWhitespace (truncateAtBrace (collectContinuation ls [i + 1 ..< ?hi] ?c))"
        using nb ne by (simp add: parseSignature_def Let_def str_includes_single)
      have "truncateAtBrace (collectContinuation ls [i + 1 ..< ?hi] ?c)
              = trim (?cut (?c @ '' '' @ t2 @ '' '' @ t3))"
      proof (cases "CHR ''{'' \<in> set t2")
        case True
        have "collectContinuation ls [i + 1 ..< ?hi] ?c = ?c @ '' '' @ t2"
          unfolding idx using l2 True by (simp add: Let_def str_includes_single)
        moreover have in2: "CHR ''{'' \<in> set (?c @ '' '' @ t2)" using True by simp
        moreover have "?cut ((?c @ '' '' @ t2) @ '' '' @ t3) = ?cut (?c @ '' '' @ t2)"
          using in2 by (rule takeWhile_brace_append)
        ultimately show ?thesis by (simp add: truncateAtBrace_takeWhile)
      next
        case False
        have "collectContinuation ls [i + 1 ..< ?hi] ?c = ?c @ '' '' @ t2 @ '' '' @ t3"
          unfolding idx using l2 l3(1) b3 t3 False
          by (simp add: Let_def str_includes_single)
        moreover have "CHR ''{'' \<in> set (?c @ '' '' @ t2 @ '' '' @ t3)" using b3 by simp
        ultimately show ?thesis by (simp only: truncateAtBrace_takeWhile)
      qed
      with ps show ?thesis using nb ne
        by (simp only: normalizeWhitespace_normal_form if_False simp_thms)
    qed
  qed
qed

theorem three_line_signature_normal_form_witness:
  "parseSignature
     [''    pub fn process('', ''        cb: fn(  u32  ) -> u32,'', ''    ) -> Result<T, E> {'']
     0 ''process('' = ''process(cb: fn(u32) -> u32,) -> Result<T, E>''
   \<and> parseSignature [''pub fn apply<F: Fn(u32)'', ''    -> u32>(f: F'', '') -> Result<T, E> {'']
     0 ''apply<F: Fn(u32)'' = ''apply<F: Fn(u32)''"
proof -
  let ?a = "[''    pub fn process('', ''        cb: fn(  u32  ) -> u32,'', ''    ) -> Result<T, E> {'']"
  let ?b = "[''pub fn apply<F: Fn(u32)'', ''    -> u32>(f: F'', '') -> Result<T, E> {'']"
  have a1: "fnMatch (stripGrepPrefix (?a ! 0)) = Some ''process(''" by code_simp
  have a2: "0 + 2 < length ?a" by simp
  have a3: "''cb: fn(  u32  ) -> u32,'' = trim (stripGrepPrefix (?a ! (0 + 1)))" by code_simp
  have a4: "''cb: fn(  u32  ) -> u32,'' \<noteq> []" "''cb: fn(  u32  ) -> u32,'' \<noteq> ''--''"
    by simp_all
  have a5: "'') -> Result<T, E> {'' = trim (stripGrepPrefix (?a ! (0 + 2)))" by code_simp
  have e: "endsWith '') -> Result<T, E> {'' '') -> Result<T, E> {''" by code_simp
  have a6: "signatureNormalForm
              (if CHR ''{'' \<notin> set (trim ''process('') \<and> endsWith (trim ''process('') '')''
               then trim ''process(''
               else trim (takeWhile (\<lambda>c. c \<noteq> CHR ''{'')
                      (trim ''process('' @ '' '' @ ''cb: fn(  u32  ) -> u32,'' @ '' ''
                         @ '') -> Result<T, E> {'')))
            = ''process(cb: fn(u32) -> u32,) -> Result<T, E>''" by code_simp
  have b1: "fnMatch (stripGrepPrefix (?b ! 0)) = Some ''apply<F: Fn(u32)''" by code_simp
  have b2: "0 + 2 < length ?b" by simp
  have b3: "''-> u32>(f: F'' = trim (stripGrepPrefix (?b ! (0 + 1)))" by code_simp
  have b4: "''-> u32>(f: F'' \<noteq> []" "''-> u32>(f: F'' \<noteq> ''--''" by simp_all
  have b5: "'') -> Result<T, E> {'' = trim (stripGrepPrefix (?b ! (0 + 2)))" by code_simp
  have b6: "signatureNormalForm
              (if CHR ''{'' \<notin> set (trim ''apply<F: Fn(u32)'')
                    \<and> endsWith (trim ''apply<F: Fn(u32)'') '')''
               then trim ''apply<F: Fn(u32)''
               else trim (takeWhile (\<lambda>c. c \<noteq> CHR ''{'')
                      (trim ''apply<F: Fn(u32)'' @ '' '' @ ''-> u32>(f: F'' @ '' ''
                         @ '') -> Result<T, E> {'')))
            = ''apply<F: Fn(u32)''" by code_simp
  from three_line_signature_normal_form [OF a1 a2 a3 a4 a5 e] a6
  have A: "parseSignature ?a 0 ''process('' = ''process(cb: fn(u32) -> u32,) -> Result<T, E>''"
    by (simp only:)
  from three_line_signature_normal_form [OF b1 b2 b3 b4 b5 e] b6
  have B: "parseSignature ?b 0 ''apply<F: Fn(u32)'' = ''apply<F: Fn(u32)''"
    by (simp only:)
  from A B show ?thesis by blast
qed

lemma example_signatures:
  "map signature (result_methods example_result) =
     [''add(self, other: Point) -> Point'', ''clone(&self) -> Point'',
      ''add(self, other: Point) -> Point'', ''clone(&self) -> Point'']"
  by code_simp

theorem no_underscore_method_records_witness:
  "map signature (result_methods example_result) =
     [''add(self, other: Point) -> Point'', ''clone(&self) -> Point'',
      ''add(self, other: Point) -> Point'', ''clone(&self) -> Point'']
   \<and> list_all (\<lambda>m. \<not> startsWith (signature m) ''_'') (result_methods example_result)"
  using example_signatures
    no_underscore_method_records [of "''Point''" "Some (''/p/src/lib.rs'', 0)" "Some ''/p''"
      "''pub struct Point { x: i32 }''" "\<lambda>pattern dir. example_output"]
  unfolding example_result_def list_all_iff by blast

theorem method_signatures_normalised_witness:
  "result_methods example_result \<noteq> []
   \<and> list_all (\<lambda>m. signature m \<noteq> [] \<and> CHR ''{'' \<notin> set (signature m)
                    \<and> no_ws_run (signature m))
        (result_methods example_result)"
proof -
  have "result_methods example_result \<noteq> []" using example_signatures by auto
  then show ?thesis
    using method_signatures_normalised [of "''Point''" "Some (''/p/src/lib.rs'', 0)" "Some ''/p''"
      "''pub struct Point { x: i32 }''" "\<lambda>pattern dir. example_output"]
    unfolding example_result_def list_all_iff by blast
qed

theorem implBlocks_grouping_witness:
  "map (\<lambda>b. (header b, map signature (methods b), map line (methods b)))
       (snd (parseOutput example_output))
     = [(''impl Point'', [''add(self, other: Point) -> Point''], [2]),
        (''impl Clone for Point'', [''clone(&self) -> Point''], [9])]"
proof -
  let ?ls = "split_on (CHR 0x0A) example_output"
  have "map (\<lambda>b. (header b, map signature (methods b), map line (methods b)))
          (filter has_methods (map (blockBetween ?ls) (segments ?ls (length ?ls))))
        = [(''impl Point'', [''add(self, other: Point) -> Point''], [2]),
           (''impl Clone for Point'', [''clone(&self) -> Point''], [9])]"
    by code_simp
  with implBlocks_grouping [OF refl, of example_output] show ?thesis by (simp only:)
qed

end
